theory Spec2Isabelle
  imports Complex_Main
begin

section \<open>The document store of exercise 15 (database.ts)\<close>

text \<open>
  The development embeds \<^verbatim>\<open>src/exercises/exercise-15/database.ts\<close>: a flat-file
  store of JSON entities with a query engine. Every function of the class
  \<^verbatim>\<open>Database\<close> has a definition of the same name below (with the suffix \<open>_db\<close> or
  \<open>_q\<close> where the name is taken by a list or set constant).

  What belongs to the JavaScript platform rather than to the repository is modelled
  on a fragment that is stated where it is introduced:
  \<^item> values are \<open>undefined\<close>, \<open>null\<close>, booleans, integers and strings of
    single-byte characters; nested arrays and objects, fractions and \<open>NaN\<close> are
    outside the fragment;
  \<^item> an object is the list of its own properties in enumeration order;
  \<^item> where the platform does something the fragment cannot express, the model
    answers \<open>Unmodelled\<close>, never a made-up value.
\<close>

subsection \<open>Values and objects\<close>

datatype jsval = Undefined | Null | Bool bool | Num int | Str string

type_synonym obj = "(string \<times> jsval) list"

datatype error = IOError | SyntaxError | TypeError | Unmodelled

text \<open>
  \<^verbatim>\<open>o[k]\<close>: a property that is absent reads as \<open>undefined\<close>. The objects of the model
  have the properties of their own only. Under a name that every object of the
  platform inherits (\<^verbatim>\<open>constructor\<close>, \<^verbatim>\<open>toString\<close>, \<^verbatim>\<open>__proto__\<close> and the like) an
  object without a property of its own reads there as the inherited member and here
  as \<open>undefined\<close>: the field names of the model are the other names.
\<close>

definition get :: "obj \<Rightarrow> string \<Rightarrow> jsval" where
  "get o' k = (case map_of o' k of None \<Rightarrow> Undefined | Some v \<Rightarrow> v)"

text \<open>
  \<^verbatim>\<open>{...o, [k]: v}\<close>: an existing property keeps its place and takes the new value, a
  new property goes to the end.
\<close>

fun obj_set :: "string \<Rightarrow> jsval \<Rightarrow> obj \<Rightarrow> obj" where
  "obj_set k v [] = [(k, v)]"
| "obj_set k v ((k', v') # ps) =
     (if k' = k then (k, v) # ps else (k', v') # obj_set k v ps)"

text \<open>\<^verbatim>\<open>({[k]: _, ...rest}) => rest\<close>: the object without the property \<open>k\<close>.\<close>

definition obj_del :: "string \<Rightarrow> obj \<Rightarrow> obj" where
  "obj_del k o' = filter (\<lambda>p. fst p \<noteq> k) o'"

text \<open>\<^verbatim>\<open>!!v\<close>\<close>

fun truthy :: "jsval \<Rightarrow> bool" where
  "truthy Undefined = False"
| "truthy Null = False"
| "truthy (Bool b) = b"
| "truthy (Num n) = (n \<noteq> 0)"
| "truthy (Str s) = (s \<noteq> [])"

subsection \<open>The relational operators\<close>

text \<open>
  \<^verbatim>\<open>a < b\<close> compares two strings by their characters and converts every other pair
  of operands to numbers. The conversion of a string (\<open>StringToNumber\<close>) is a floating
  point function of the platform: it is the parameter \<open>s2n\<close> of everything that
  compares, and nothing below depends on what it returns.
\<close>

datatype number = NaN | NegInf | Finite rat | PosInf

fun num_lt :: "number \<Rightarrow> number \<Rightarrow> bool" where
  "num_lt NaN _ = False"
| "num_lt _ NaN = False"
| "num_lt (Finite a) (Finite b) = (a < b)"
| "num_lt (Finite a) PosInf = True"
| "num_lt NegInf (Finite b) = True"
| "num_lt NegInf PosInf = True"
| "num_lt _ _ = False"

fun ToNumber :: "(string \<Rightarrow> number) \<Rightarrow> jsval \<Rightarrow> number" where
  "ToNumber s2n Undefined = NaN"
| "ToNumber s2n Null = Finite 0"
| "ToNumber s2n (Bool b) = Finite (if b then 1 else 0)"
| "ToNumber s2n (Num n) = Finite (of_int n)"
| "ToNumber s2n (Str s) = s2n s"

fun str_lt :: "string \<Rightarrow> string \<Rightarrow> bool" where
  "str_lt [] [] = False"
| "str_lt [] (y # ys) = True"
| "str_lt (x # xs) [] = False"
| "str_lt (x # xs) (y # ys) =
     (if (of_char x :: nat) < of_char y then True
      else if x = y then str_lt xs ys else False)"

fun js_lt :: "(string \<Rightarrow> number) \<Rightarrow> jsval \<Rightarrow> jsval \<Rightarrow> bool" where
  "js_lt s2n (Str s) (Str t) = str_lt s t"
| "js_lt s2n a b = num_lt (ToNumber s2n a) (ToNumber s2n b)"

definition js_gt :: "(string \<Rightarrow> number) \<Rightarrow> jsval \<Rightarrow> jsval \<Rightarrow> bool" where
  "js_gt s2n a b = js_lt s2n b a"

subsection \<open>Queries\<close>

text \<open>
  \<^verbatim>\<open>QueryParam<Prop>\<close> is a union of four one-key objects. A query is an object
  whose keys are field names or the operators \<^verbatim>\<open>$and\<close>, \<^verbatim>\<open>$or\<close>, \<^verbatim>\<open>$text\<close>; the
  sub-queries of \<^verbatim>\<open>$and\<close> and \<^verbatim>\<open>$or\<close> are objects of the same kind.
\<close>

datatype test = Eq jsval | Gt jsval | Lt jsval | In "jsval list"

datatype qvalue = Param test | Subs "(string \<times> qvalue) list list" | Words string

type_synonym query = "(string \<times> qvalue) list"

text \<open>\<^verbatim>\<open>field.startsWith('$')\<close>\<close>

definition startsWith_dollar :: "string \<Rightarrow> bool" where
  "startsWith_dollar k = (case k of [] \<Rightarrow> False | c # _ \<Rightarrow> c = CHR ''$'')"

text \<open>The \<^verbatim>\<open>switch\<close> of \<^verbatim>\<open>queryMatches\<close> on the one matcher of a test.\<close>

fun matcher :: "(string \<Rightarrow> number) \<Rightarrow> test \<Rightarrow> jsval \<Rightarrow> bool" where
  "matcher s2n (Eq expected) actual = (actual = expected)"
| "matcher s2n (Gt expected) actual = js_gt s2n actual expected"
| "matcher s2n (Lt expected) actual = js_lt s2n actual expected"
| "matcher s2n (In expected) actual = (actual \<in> set expected)"

text \<open>
  The callback of the \<^verbatim>\<open>reduce\<close> in \<^verbatim>\<open>queryMatches\<close>. The type \<^verbatim>\<open>Queryable\<close> puts a
  test under every key that is a field, and the model is about the queries of that
  type. For a value of another kind with entries (a string or an array that is not
  empty) no \<^verbatim>\<open>case\<close> of the switch applies and the callback returns \<open>undefined\<close>,
  which is falsy: this is the answer \<open>False\<close> below. For one without entries the
  destructuring throws, which the model does not follow.
\<close>

definition match_step :: "(string \<Rightarrow> number) \<Rightarrow> obj \<Rightarrow> bool \<Rightarrow> string \<times> qvalue \<Rightarrow> bool" where
  "match_step s2n entity acc p =
     (if \<not> acc \<or> startsWith_dollar (fst p) then acc
      else (case snd p of
              Param t \<Rightarrow> matcher s2n t (get entity (fst p))
            | _ \<Rightarrow> False))"

definition queryMatches :: "(string \<Rightarrow> number) \<Rightarrow> query \<Rightarrow> obj \<Rightarrow> bool" where
  "queryMatches s2n q entity = foldl (match_step s2n entity) True q"

definition filterParams :: "(string \<Rightarrow> number) \<Rightarrow> query \<Rightarrow> obj list \<Rightarrow> obj list" where
  "filterParams s2n q entities = filter (\<lambda>entity. queryMatches s2n q entity) entities"

text \<open>
  The destructuring \<^verbatim>\<open>{$and}\<close>, \<^verbatim>\<open>{$or}\<close>, \<^verbatim>\<open>{$text}\<close> of a query. The type
  \<^verbatim>\<open>Operators\<close> fixes the kind of value under each operator.
\<close>

definition subqueries :: "string \<Rightarrow> query \<Rightarrow> query list option" where
  "subqueries k q = (case map_of q k of Some (Subs subs) \<Rightarrow> Some subs | _ \<Rightarrow> None)"

definition text_of :: "query \<Rightarrow> string option" where
  "text_of q = (case map_of q ''$text'' of Some (Words w) \<Rightarrow> Some w | _ \<Rightarrow> None)"

definition filterAnd :: "(string \<Rightarrow> number) \<Rightarrow> query \<Rightarrow> obj list \<Rightarrow> obj list" where
  "filterAnd s2n q entities =
     (case subqueries ''$and'' q of
        Some subs \<Rightarrow> foldl (\<lambda>acc sub. filterParams s2n sub acc) entities subs
      | None \<Rightarrow> entities)"

text \<open>\<^verbatim>\<open>$or.find(...)\<close> stops at the first sub-query that matches.\<close>

definition filterOr :: "(string \<Rightarrow> number) \<Rightarrow> query \<Rightarrow> obj list \<Rightarrow> obj list" where
  "filterOr s2n q entities =
     (case subqueries ''$or'' q of
        Some subs \<Rightarrow>
          filter (\<lambda>entity. find (\<lambda>sub. queryMatches s2n sub entity) subs \<noteq> None) entities
      | None \<Rightarrow> entities)"

subsection \<open>Full-text search\<close>

text \<open>
  The characters of the fragment are ASCII: \<^verbatim>\<open>toLowerCase\<close> maps \<open>A\<close>--\<open>Z\<close> to
  \<open>a\<close>--\<open>z\<close>, and \<^verbatim>\<open>\b\<close> separates the characters \<^verbatim>\<open>[A-Za-z0-9_]\<close> from all others.
\<close>

definition ascii :: "string \<Rightarrow> bool" where
  "ascii s = list_all (\<lambda>c. (of_char c :: nat) < 128) s"

definition lower_char :: "char \<Rightarrow> char" where
  "lower_char c =
     (let n = (of_char c :: nat) in if 65 \<le> n \<and> n \<le> 90 then char_of (n + 32) else c)"

definition toLowerCase :: "string \<Rightarrow> string" where
  "toLowerCase s = map lower_char s"

definition is_word_char :: "char \<Rightarrow> bool" where
  "is_word_char c =
     (let n = (of_char c :: nat)
      in (48 \<le> n \<and> n \<le> 57) \<or> (65 \<le> n \<and> n \<le> 90) \<or> n = 95 \<or> (97 \<le> n \<and> n \<le> 122))"

text \<open>\<^verbatim>\<open>s.split(c)\<close>: the pieces between the occurrences of \<open>c\<close>, empty pieces included.\<close>

fun split :: "char \<Rightarrow> string \<Rightarrow> string list" where
  "split c [] = [[]]"
| "split c (x # xs) =
     (if x = c then [] # split c xs
      else (case split c xs of [] \<Rightarrow> [[x]] | w # ws \<Rightarrow> (x # w) # ws))"

text \<open>
  \<^verbatim>\<open>new RegExp(`\\b${expected}\\b`)\<close> reads the word as a pattern. The model covers the
  patterns made of literal characters and of the wildcard \<^verbatim>\<open>.\<close> (any character but a
  line terminator); a word with another character of the pattern syntax is
  \<open>Unmodelled\<close>.
\<close>

definition pattern_syntax :: "char \<Rightarrow> bool" where
  "pattern_syntax c =
     (c \<in> set [CHR 0x5C, CHR ''^'', CHR ''$'', CHR ''*'', CHR ''+'', CHR ''?'', CHR ''('', CHR '')'',
               CHR ''['', CHR '']'', CHR ''{'', CHR ''}'', CHR ''|''])"

fun match_here :: "string \<Rightarrow> string \<Rightarrow> bool" where
  "match_here [] s = True"
| "match_here (p # ps) [] = False"
| "match_here (p # ps) (c # cs) =
     ((if p = CHR ''.'' then c \<noteq> CHR 0x0A \<and> c \<noteq> CHR 0x0D else p = c) \<and> match_here ps cs)"

text \<open>\<^verbatim>\<open>\b\<close> at position \<open>i\<close>: exactly one of the two neighbours is a word character.\<close>

definition at_boundary :: "string \<Rightarrow> nat \<Rightarrow> bool" where
  "at_boundary s i =
     ((0 < i \<and> i \<le> length s \<and> is_word_char (s ! (i - 1))) \<noteq> (i < length s \<and> is_word_char (s ! i)))"

definition word_match :: "string \<Rightarrow> string \<Rightarrow> bool" where
  "word_match expected actual =
     list_ex (\<lambda>i. at_boundary actual i \<and> match_here expected (drop i actual)
                   \<and> at_boundary actual (i + length expected))
       [0 ..< Suc (length actual)]"

definition RegExp_match :: "string \<Rightarrow> string \<Rightarrow> error + bool" where
  "RegExp_match expected actual =
     (if list_ex pattern_syntax expected then Inl Unmodelled
      else Inr (word_match expected actual))"

text \<open>
  The callback of \<^verbatim>\<open>some\<close>: \<^verbatim>\<open>entity[f].toLowerCase()\<close> is a \<open>TypeError\<close> unless the
  field holds a string.
\<close>

definition field_matches :: "string \<Rightarrow> obj \<Rightarrow> string \<Rightarrow> error + bool" where
  "field_matches expected entity f =
     (case get entity f of
        Str s \<Rightarrow> if ascii s then RegExp_match expected (toLowerCase s) else Inl Unmodelled
      | _ \<Rightarrow> Inl TypeError)"

text \<open>\<^verbatim>\<open>some\<close>, \<^verbatim>\<open>every\<close> and \<^verbatim>\<open>filter\<close> with a callback that may throw.\<close>

fun some_e :: "('a \<Rightarrow> error + bool) \<Rightarrow> 'a list \<Rightarrow> error + bool" where
  "some_e f [] = Inr False"
| "some_e f (x # xs) =
     (case f x of Inl e \<Rightarrow> Inl e | Inr b \<Rightarrow> if b then Inr True else some_e f xs)"

fun every_e :: "('a \<Rightarrow> error + bool) \<Rightarrow> 'a list \<Rightarrow> error + bool" where
  "every_e f [] = Inr True"
| "every_e f (x # xs) =
     (case f x of Inl e \<Rightarrow> Inl e | Inr b \<Rightarrow> if b then every_e f xs else Inr False)"

fun filter_e :: "('a \<Rightarrow> error + bool) \<Rightarrow> 'a list \<Rightarrow> error + 'a list" where
  "filter_e f [] = Inr []"
| "filter_e f (x # xs) =
     (case f x of
        Inl e \<Rightarrow> Inl e
      | Inr b \<Rightarrow> (case filter_e f xs of
                    Inl e \<Rightarrow> Inl e
                  | Inr ys \<Rightarrow> Inr (if b then x # ys else ys)))"

definition filterText :: "string list \<Rightarrow> query \<Rightarrow> obj list \<Rightarrow> error + obj list" where
  "filterText fullTextSearchFieldNames q entities =
     (case text_of q of
        None \<Rightarrow> Inr entities
      | Some text \<Rightarrow>
          if text = [] then Inr entities
          else if \<not> ascii text then Inl Unmodelled
          else (let words = split CHR '' '' (toLowerCase text)
                in filter_e (\<lambda>entity.
                     every_e (\<lambda>expected.
                       some_e (field_matches expected entity) fullTextSearchFieldNames) words)
                     entities))"

definition filter_q ::
  "(string \<Rightarrow> number) \<Rightarrow> string list \<Rightarrow> query \<Rightarrow> obj list \<Rightarrow> error + obj list" where
  "filter_q s2n fullTextSearchFieldNames q entities =
     (case filterText fullTextSearchFieldNames q (filterOr s2n q (filterAnd s2n q entities)) of
        Inl e \<Rightarrow> Inl e
      | Inr es \<Rightarrow> Inr (filterParams s2n q es))"

subsection \<open>Sorting and projection\<close>

datatype direction = Asc | Desc

fun dir_num :: "direction \<Rightarrow> int" where
  "dir_num Asc = 1"
| "dir_num Desc = - 1"

text \<open>The callback of the \<^verbatim>\<open>reduce\<close> in \<^verbatim>\<open>sort\<close>, and the comparator it builds.\<close>

definition compare_step ::
  "(string \<Rightarrow> number) \<Rightarrow> obj \<Rightarrow> obj \<Rightarrow> int \<Rightarrow> string \<times> direction \<Rightarrow> int" where
  "compare_step s2n a b acc p =
     (let aValue = get a (fst p); bValue = get b (fst p)
      in if acc \<noteq> 0 \<or> aValue = bValue then acc
         else if js_gt s2n aValue bValue then dir_num (snd p)
         else if js_lt s2n aValue bValue then - dir_num (snd p)
         else 0)"

definition comparator :: "(string \<Rightarrow> number) \<Rightarrow> (string \<times> direction) list \<Rightarrow> obj \<Rightarrow> obj \<Rightarrow> int" where
  "comparator s2n srt a b = foldl (compare_step s2n a b) 0 srt"

text \<open>
  \<^verbatim>\<open>Array.prototype.sort\<close> is stable. For a comparator that is a consistent ordering
  of the elements (every element equal to itself, equality symmetric, and equality,
  less and greater transitive) the result is determined: it is the one of a stable
  insertion sort. For another comparator the order is left to the platform, and the
  model answers \<open>Unmodelled\<close>.
\<close>

definition consistent_comparator :: "('a \<Rightarrow> 'a \<Rightarrow> int) \<Rightarrow> 'a list \<Rightarrow> bool" where
  "consistent_comparator cmp xs =
     list_all (\<lambda>a. cmp a a = 0 \<and>
       list_all (\<lambda>b. (cmp a b = 0) = (cmp b a = 0) \<and>
         list_all (\<lambda>c. (if cmp a b = 0 \<and> cmp b c = 0 then cmp a c = 0 else True)
                     \<and> (if cmp a b < 0 \<and> cmp b c < 0 then cmp a c < 0 else True)
                     \<and> (if cmp a b > 0 \<and> cmp b c > 0 then cmp a c > 0 else True)) xs) xs) xs"

fun insert_sorted :: "('a \<Rightarrow> 'a \<Rightarrow> int) \<Rightarrow> 'a \<Rightarrow> 'a list \<Rightarrow> 'a list" where
  "insert_sorted cmp x [] = [x]"
| "insert_sorted cmp x (y # ys) =
     (if cmp x y \<le> 0 then x # y # ys else y # insert_sorted cmp x ys)"

definition Array_sort :: "('a \<Rightarrow> 'a \<Rightarrow> int) \<Rightarrow> 'a list \<Rightarrow> error + 'a list" where
  "Array_sort cmp xs =
     (if consistent_comparator cmp xs then Inr (foldr (insert_sorted cmp) xs [])
      else Inl Unmodelled)"

definition sort_q ::
  "(string \<Rightarrow> number) \<Rightarrow> (string \<times> direction) list option \<Rightarrow> obj list \<Rightarrow> error + obj list" where
  "sort_q s2n srt entities =
     (case srt of None \<Rightarrow> Inr entities | Some m \<Rightarrow> Array_sort (comparator s2n m) entities)"

definition project :: "string list option \<Rightarrow> obj list \<Rightarrow> obj list" where
  "project projection entities =
     (case projection of
        None \<Rightarrow> entities
      | Some keys \<Rightarrow>
          map (\<lambda>entity. foldl (\<lambda>acc key. obj_set key (get entity key) acc) [] keys) entities)"

subsection \<open>JSON text\<close>

text \<open>
  \<^verbatim>\<open>JSON.stringify\<close> and \<^verbatim>\<open>JSON.parse\<close> on the objects of the fragment. An object is
  in the fragment when its keys are distinct, none of them is an array index (the
  platform enumerates those first, whatever the order of insertion), its characters
  are ASCII and its numbers are safe integers. Outside the fragment (a fraction, an
  exponent, the number \<^verbatim>\<open>-0\<close>, a nested array or object, a character beyond ASCII)
  both functions answer \<open>Unmodelled\<close>.
\<close>

definition is_digit :: "char \<Rightarrow> bool" where
  "is_digit c = (let n = (of_char c :: nat) in 48 \<le> n \<and> n \<le> 57)"

definition digit_char :: "nat \<Rightarrow> char" where
  "digit_char d = char_of (48 + d)"

definition digit_val :: "char \<Rightarrow> int" where
  "digit_val c = int (of_char c) - 48"

function digits :: "nat \<Rightarrow> string" where
  "digits n = (if n < 10 then [digit_char n] else digits (n div 10) @ [digit_char (n mod 10)])"
  by pat_completeness auto
termination
  by (relation "measure id") auto

declare digits.simps [simp del]

definition digits_val :: "string \<Rightarrow> int" where
  "digits_val ds = foldl (\<lambda>a c. 10 * a + digit_val c) 0 ds"

definition show_int :: "int \<Rightarrow> string" where
  "show_int i = (if i < 0 then CHR ''-'' # digits (nat (- i)) else digits (nat i))"

definition safe_int :: "int \<Rightarrow> bool" where
  "safe_int i = (\<bar>i\<bar> \<le> 9007199254740991)"

text \<open>A key that the platform treats as an array index: a decimal numeral without a leading zero.\<close>

definition index_like :: "string \<Rightarrow> bool" where
  "index_like k = (k \<noteq> [] \<and> list_all is_digit k \<and> (hd k = CHR ''0'' \<longrightarrow> length k = 1))"

fun in_fragment_val :: "jsval \<Rightarrow> bool" where
  "in_fragment_val (Num n) = safe_int n"
| "in_fragment_val (Str s) = ascii s"
| "in_fragment_val _ = True"

definition in_fragment :: "obj \<Rightarrow> bool" where
  "in_fragment o' =
     (distinct (map fst o') \<and>
      list_all (\<lambda>p. ascii (fst p) \<and> \<not> index_like (fst p) \<and> in_fragment_val (snd p)) o')"

subsubsection \<open>Writing\<close>

definition hex_char :: "nat \<Rightarrow> char" where
  "hex_char d = (if d < 10 then char_of (48 + d) else char_of (87 + d))"

text \<open>\<open>QuoteJSONString\<close>: the escapes of one character.\<close>

definition escape_char :: "char \<Rightarrow> string" where
  "escape_char c =
     (let n = (of_char c :: nat)
      in if c = CHR 0x22 then [CHR 0x5C, CHR 0x22]
         else if c = CHR 0x5C then [CHR 0x5C, CHR 0x5C]
         else if n = 8 then [CHR 0x5C, CHR ''b'']
         else if n = 12 then [CHR 0x5C, CHR ''f'']
         else if n = 10 then [CHR 0x5C, CHR ''n'']
         else if n = 13 then [CHR 0x5C, CHR ''r'']
         else if n = 9 then [CHR 0x5C, CHR ''t'']
         else if n < 32 then [CHR 0x5C, CHR ''u'', CHR ''0'', CHR ''0'', hex_char (n div 16), hex_char (n mod 16)]
         else [c])"

definition quote :: "string \<Rightarrow> string" where
  "quote s = CHR 0x22 # concat (map escape_char s) @ [CHR 0x22]"

fun str_value :: "jsval \<Rightarrow> string" where
  "str_value Undefined = []"
| "str_value Null = ''null''"
| "str_value (Bool b) = (if b then ''true'' else ''false'')"
| "str_value (Num n) = show_int n"
| "str_value (Str s) = quote s"

definition member_text :: "string \<times> jsval \<Rightarrow> string" where
  "member_text p = quote (fst p) @ CHR '':'' # str_value (snd p)"

fun join_comma :: "string list \<Rightarrow> string" where
  "join_comma [] = []"
| "join_comma [x] = x"
| "join_comma (x # y # ys) = x @ CHR '','' # join_comma (y # ys)"

text \<open>A property whose value is \<open>undefined\<close> is left out.\<close>

definition JSON_stringify :: "obj \<Rightarrow> error + string" where
  "JSON_stringify o' =
     (if in_fragment o'
      then Inr (CHR ''{'' # join_comma (map member_text (filter (\<lambda>p. snd p \<noteq> Undefined) o')) @ [CHR ''}''])
      else Inl Unmodelled)"

subsubsection \<open>Reading\<close>

definition is_ws :: "char \<Rightarrow> bool" where
  "is_ws c = (c = CHR '' '' \<or> c = CHR 0x09 \<or> c = CHR 0x0A \<or> c = CHR 0x0D)"

definition skip_ws :: "string \<Rightarrow> string" where
  "skip_ws s = dropWhile is_ws s"

definition hex_val :: "char \<Rightarrow> nat option" where
  "hex_val c =
     (let n = (of_char c :: nat)
      in if 48 \<le> n \<and> n \<le> 57 then Some (n - 48)
         else if 97 \<le> n \<and> n \<le> 102 then Some (n - 87)
         else if 65 \<le> n \<and> n \<le> 70 then Some (n - 55)
         else None)"

text \<open>The character that a one-letter escape stands for.\<close>

definition unescape :: "char \<Rightarrow> char option" where
  "unescape e =
     (if e = CHR 0x22 \<or> e = CHR 0x5C \<or> e = CHR ''/'' then Some e
      else if e = CHR ''b'' then Some (CHR 0x08)
      else if e = CHR ''f'' then Some (CHR 0x0C)
      else if e = CHR ''n'' then Some (CHR 0x0A)
      else if e = CHR ''r'' then Some (CHR 0x0D)
      else if e = CHR ''t'' then Some (CHR 0x09)
      else None)"

definition cons_char :: "char \<Rightarrow> error + string \<times> string \<Rightarrow> error + string \<times> string" where
  "cons_char c r = (case r of Inl e \<Rightarrow> Inl e | Inr (s, rest) \<Rightarrow> Inr (c # s, rest))"

text \<open>The characters of a string after its opening quote, and what follows the closing one.\<close>

fun parse_chars :: "string \<Rightarrow> error + string \<times> string" where
  "parse_chars [] = Inl SyntaxError"
| "parse_chars (c # cs) =
     (if c = CHR 0x22 then Inr ([], cs)
      else if c = CHR 0x5C then
        (case cs of
           [] \<Rightarrow> Inl SyntaxError
         | e # r \<Rightarrow>
             if e = CHR ''u'' then
               (case r of
                  h1 # h2 # h3 # h4 # r' \<Rightarrow>
                    (case (hex_val h1, hex_val h2, hex_val h3, hex_val h4) of
                       (Some a, Some b, Some c', Some d) \<Rightarrow>
                         (let code = ((a * 16 + b) * 16 + c') * 16 + d
                          in if code < 128 then cons_char (char_of code) (parse_chars r')
                             else Inl Unmodelled)
                     | _ \<Rightarrow> Inl SyntaxError)
                | _ \<Rightarrow> Inl SyntaxError)
             else (case unescape e of
                     None \<Rightarrow> Inl SyntaxError
                   | Some x \<Rightarrow> cons_char x (parse_chars r)))
      else if (of_char c :: nat) < 32 then Inl SyntaxError
      else if (of_char c :: nat) \<ge> 128 then Inl Unmodelled
      else cons_char c (parse_chars cs))"

definition parse_number :: "string \<Rightarrow> error + int \<times> string" where
  "parse_number s =
     (let neg = (s \<noteq> [] \<and> hd s = CHR ''-'');
          s1 = (if neg then tl s else s);
          ds = takeWhile is_digit s1;
          rest = dropWhile is_digit s1
      in if ds = [] then Inl SyntaxError
         else if hd ds = CHR ''0'' \<and> length ds > 1 then Inl SyntaxError
         else if rest \<noteq> [] \<and> hd rest \<in> set [CHR ''.'', CHR ''e'', CHR ''E''] then Inl Unmodelled
         else if neg \<and> digits_val ds = 0 then Inl Unmodelled
         else if digits_val ds > 9007199254740991 then Inl Unmodelled
         else Inr (if neg then - digits_val ds else digits_val ds, rest))"

definition parse_value :: "string \<Rightarrow> error + jsval \<times> string" where
  "parse_value s =
     (case s of
        [] \<Rightarrow> Inl SyntaxError
      | c # cs \<Rightarrow>
          if c = CHR 0x22 then
            (case parse_chars cs of Inl e \<Rightarrow> Inl e | Inr (x, r) \<Rightarrow> Inr (Str x, r))
          else if c = CHR ''-'' \<or> is_digit c then
            (case parse_number s of Inl e \<Rightarrow> Inl e | Inr (n, r) \<Rightarrow> Inr (Num n, r))
          else if take 4 s = ''true'' then Inr (Bool True, drop 4 s)
          else if take 5 s = ''false'' then Inr (Bool False, drop 5 s)
          else if take 4 s = ''null'' then Inr (Null, drop 4 s)
          else if c = CHR ''['' \<or> c = CHR ''{'' then Inl Unmodelled
          else Inl SyntaxError)"

text \<open>
  The members of an object after its opening brace, up to the closing one. A key that
  comes again replaces the value and keeps the place of the first.
\<close>

function parse_members :: "obj \<Rightarrow> string \<Rightarrow> error + obj \<times> string" where
  "parse_members acc s =
     (case skip_ws s of
        [] \<Rightarrow> Inl SyntaxError
      | c # r \<Rightarrow>
          if c \<noteq> CHR 0x22 then Inl SyntaxError
          else (case parse_chars r of
                  Inl e \<Rightarrow> Inl e
                | Inr (k, r1) \<Rightarrow>
                    (case skip_ws r1 of
                       [] \<Rightarrow> Inl SyntaxError
                     | colon # r2 \<Rightarrow>
                         if colon \<noteq> CHR '':'' then Inl SyntaxError
                         else (case parse_value (skip_ws r2) of
                                 Inl e \<Rightarrow> Inl e
                               | Inr (v, r3) \<Rightarrow>
                                   if index_like k then Inl Unmodelled
                                   else (case skip_ws r3 of
                                           [] \<Rightarrow> Inl SyntaxError
                                         | d # r4 \<Rightarrow>
                                             if d = CHR '','' then parse_members (obj_set k v acc) r4
                                             else if d = CHR ''}'' then Inr (obj_set k v acc, r4)
                                             else Inl SyntaxError)))))"
  by pat_completeness auto
termination
proof (relation "measure (\<lambda>(acc, s). length s)", goal_cases)
  case 1
  then show ?case by simp
next
  case (2 acc s c r x k r1 colon r2 y v r3 d r4)
  have chars: "length b < length a" if "parse_chars a = Inr (z, b)" for a z b
    using that
  proof (induction a arbitrary: z b rule: parse_chars.induct)
    case 1
    then show ?case by simp
  next
    case (2 c cs)
    show ?case
      using "2.prems" "2.IH"
      by (fastforce simp: cons_char_def Let_def
            split: if_splits list.splits option.splits sum.splits prod.splits)
  qed
  have ws: "length (skip_ws a) \<le> length a" for a
    by (simp add: skip_ws_def length_dropWhile_le)
  have number: "length b \<le> length a" if "parse_number a = Inr (n, b)" for a n b
  proof -
    have "length (dropWhile is_digit (tl a)) \<le> length a"
      by (rule order_trans[OF length_dropWhile_le]) simp
    with that show ?thesis
      by (auto simp: parse_number_def Let_def length_dropWhile_le split: if_splits)
  qed
  have "value": "length b \<le> length a" if "parse_value a = Inr (w, b)" for a w b
    using that
    by (auto simp: parse_value_def split: list.splits if_splits sum.splits
          dest: chars number)
  have "length r4 < length (skip_ws r3)" using 2 by simp
  also have "\<dots> \<le> length r3" by (rule ws)
  also have "\<dots> \<le> length (skip_ws r2)" using 2 by (auto dest: "value")
  also have "\<dots> \<le> length r2" by (rule ws)
  also have "\<dots> < length (skip_ws r1)" using 2 by simp
  also have "\<dots> \<le> length r1" by (rule ws)
  also have "\<dots> < length r" using 2 by (auto dest: chars)
  also have "\<dots> < length (skip_ws s)" using 2 by simp
  also have "\<dots> \<le> length s" by (rule ws)
  finally show ?case by simp
qed

declare parse_members.simps [simp del]

text \<open>
  The text of one object, with white space around the tokens. A text that is not an
  object (a number, a string, an array) is outside the fragment.
\<close>

definition JSON_parse :: "string \<Rightarrow> error + obj" where
  "JSON_parse s =
     (case skip_ws s of
        [] \<Rightarrow> Inl SyntaxError
      | c # r \<Rightarrow>
          if c \<noteq> CHR ''{'' then Inl Unmodelled
          else (case (case skip_ws r of
                        [] \<Rightarrow> Inl SyntaxError
                      | d # r' \<Rightarrow> if d = CHR ''}'' then Inr ([], r') else parse_members [] r) of
                  Inl e \<Rightarrow> Inl e
                | Inr (o', rest) \<Rightarrow> if skip_ws rest = [] then Inr o' else Inl SyntaxError))"

subsection \<open>The log file and the mutations\<close>

text \<open>
  The state of a \<^verbatim>\<open>Database\<close> object: the text of the file at \<^verbatim>\<open>filename\<close> (\<open>None\<close>
  when the file cannot be read), whether the file can be opened for writing, the
  promise \<^verbatim>\<open>lock\<close> (\<open>Some e\<close> once it has been rejected with \<open>e\<close>) and the configured
  field names. \<^verbatim>\<open>writeFile\<close> on a file that cannot be opened for writing is rejected
  and leaves the file as it was; a write that fails half-way is not modelled. After
  an answer \<open>Unmodelled\<close> the state says nothing about the program.
\<close>

record database =
  contents :: "string option"
  writable :: bool
  lock :: "error option"
  fullTextSearchFieldNames :: "string list"

record options =
  opt_sort :: "(string \<times> direction) list option"
  opt_projection :: "string list option"
  opt_deleted :: "bool option"

definition readFile :: "database \<Rightarrow> error + string" where
  "readFile db = (case contents db of None \<Rightarrow> Inl IOError | Some data \<Rightarrow> Inr data)"

text \<open>\<^verbatim>\<open>map\<close> with a callback that may throw.\<close>

fun map_e :: "('a \<Rightarrow> error + 'b) \<Rightarrow> 'a list \<Rightarrow> error + 'b list" where
  "map_e f [] = Inr []"
| "map_e f (x # xs) =
     (case f x of
        Inl e \<Rightarrow> Inl e
      | Inr y \<Rightarrow> (case map_e f xs of Inl e \<Rightarrow> Inl e | Inr ys \<Rightarrow> Inr (y # ys)))"

text \<open>
  The callback of the \<^verbatim>\<open>map\<close> in \<^verbatim>\<open>loadAll\<close>:
  \<^verbatim>\<open>{...JSON.parse(raw.slice(1)), exists: raw[0] === 'E'}\<close>, for a line that is not empty.
\<close>

definition decode :: "string \<Rightarrow> error + obj" where
  "decode raw =
     (case JSON_parse (tl raw) of
        Inl e \<Rightarrow> Inl e
      | Inr parsed \<Rightarrow> Inr (obj_set ''exists'' (Bool (hd raw = CHR ''E'')) parsed))"

definition loadAll :: "database \<Rightarrow> error + obj list" where
  "loadAll db =
     (case readFile db of
        Inl e \<Rightarrow> Inl e
      | Inr data \<Rightarrow> map_e decode (filter (\<lambda>line. line \<noteq> []) (split (CHR 0x0A) data)))"

definition load :: "database \<Rightarrow> error + obj list" where
  "load db =
     (case loadAll db of
        Inl e \<Rightarrow> Inl e
      | Inr all \<Rightarrow>
          Inr (map (obj_del ''exists'') (filter (\<lambda>r. truthy (get r ''exists'')) all)))"

definition toLine :: "obj \<Rightarrow> error + string" where
  "toLine r =
     (case JSON_stringify (obj_del ''exists'' r) of
        Inl e \<Rightarrow> Inl e
      | Inr s \<Rightarrow> Inr ((if truthy (get r ''exists'') then CHR ''E'' else CHR ''D'') # s))"

text \<open>\<^verbatim>\<open>writeFile(this.filename, data)\<close>\<close>

definition writeFile :: "string \<Rightarrow> database \<Rightarrow> (error + unit) \<times> database" where
  "writeFile data db =
     (if writable db then (Inr (), db\<lparr>contents := Some data\<rparr>) else (Inl IOError, db))"

text \<open>
  \<^verbatim>\<open>flush\<close> chains its body on \<^verbatim>\<open>this.lock\<close> and awaits the result: on a rejected lock
  the body does not run and the rejection is thrown again; a body that throws, in
  reading, in encoding or in writing, leaves the lock rejected.
\<close>

definition flush :: "obj list \<Rightarrow> obj list \<Rightarrow> database \<Rightarrow> (error + unit) \<times> database" where
  "flush inserts deletes db =
     (case lock db of
        Some e \<Rightarrow> (Inl e, db)
      | None \<Rightarrow>
          (case loadAll db of
             Inl e \<Rightarrow> (Inl e, db\<lparr>lock := Some e\<rparr>)
           | Inr all \<Rightarrow>
               (let deletedIds = map (\<lambda>d. get d ''_id'') deletes;
                    newDeletables = map (obj_set ''exists'' (Bool True)) inserts;
                    records =
                      map (\<lambda>e. if get e ''_id'' \<in> set deletedIds
                               then obj_set ''exists'' (Bool False) e else e) all
                      @ newDeletables
                in (case map_e toLine records of
                      Inl e \<Rightarrow> (Inl e, db\<lparr>lock := Some e\<rparr>)
                    | Inr lines \<Rightarrow>
                        (case writeFile (foldl (\<lambda>acc l. acc @ CHR 0x0A # l) [] lines) db of
                           (Inl e, db') \<Rightarrow> (Inl e, db'\<lparr>lock := Some e\<rparr>)
                         | (Inr u, db') \<Rightarrow> (Inr (), db'))))))"

definition insert_db :: "obj \<Rightarrow> database \<Rightarrow> (error + unit) \<times> database" where
  "insert_db entity db = flush [entity] [] db"

definition find_db ::
  "(string \<Rightarrow> number) \<Rightarrow> query \<Rightarrow> options \<Rightarrow> database \<Rightarrow> error + obj list" where
  "find_db s2n q opts db =
     (case load db of
        Inl e \<Rightarrow> Inl e
      | Inr entities \<Rightarrow>
          (case filter_q s2n (fullTextSearchFieldNames db) q entities of
             Inl e \<Rightarrow> Inl e
           | Inr es \<Rightarrow>
               (case sort_q s2n (opt_sort opts) es of
                  Inl e \<Rightarrow> Inl e
                | Inr ordered \<Rightarrow> Inr (project (opt_projection opts) ordered))))"

definition delete_db ::
  "(string \<Rightarrow> number) \<Rightarrow> query \<Rightarrow> database \<Rightarrow> (error + unit) \<times> database" where
  "delete_db s2n q db =
     (case load db of
        Inl e \<Rightarrow> (Inl e, db)
      | Inr entities \<Rightarrow>
          (case filter_q s2n (fullTextSearchFieldNames db) q entities of
             Inl e \<Rightarrow> (Inl e, db)
           | Inr ds \<Rightarrow> flush [] ds db))"

text \<open>\<^verbatim>\<open>opts = {}\<close>, the default of \<^verbatim>\<open>find\<close>.\<close>

definition no_options :: options where
  "no_options = \<lparr>opt_sort = None, opt_projection = None, opt_deleted = None\<rparr>"

subsection \<open>The properties, in the words of the specification\<close>

text \<open>
  The field predicates of a sub-query are its entries under keys that are not
  operators; an entity satisfies one when the matcher of its test accepts the value
  of the field.
\<close>

definition field_predicates :: "query \<Rightarrow> (string \<times> qvalue) list" where
  "field_predicates q = filter (\<lambda>p. \<not> startsWith_dollar (fst p)) q"

definition holds :: "(string \<Rightarrow> number) \<Rightarrow> obj \<Rightarrow> string \<times> qvalue \<Rightarrow> bool" where
  "holds s2n entity p =
     (case snd p of Param t \<Rightarrow> matcher s2n t (get entity (fst p)) | _ \<Rightarrow> False)"

text \<open>
  Two values are tied for the comparator of \<^verbatim>\<open>sort\<close> when neither is greater than the
  other: equal values, and values that differ without being ordered (an absent
  field against a number, \<open>null\<close> against \<open>0\<close>).
\<close>

definition tied :: "(string \<Rightarrow> number) \<Rightarrow> obj \<Rightarrow> obj \<Rightarrow> string \<Rightarrow> bool" where
  "tied s2n a b f = (\<not> js_gt s2n (get a f) (get b f) \<and> \<not> js_lt s2n (get a f) (get b f))"

text \<open>The two entities of the sort example.\<close>

definition entity1 :: obj where
  "entity1 = [(''_id'', Num 1), (''a'', Num 1), (''b'', Num 2)]"

definition entity2 :: obj where
  "entity2 = [(''_id'', Num 2), (''a'', Num 1), (''b'', Num 1)]"

text \<open>
  A string contains a word as a whole word when the word occurs in it with no word
  character right before and none right after. An entity matches a text when every
  word of the text, its pieces between spaces, is contained in this way in some
  search field, letter case apart.
\<close>

definition whole_word :: "string \<Rightarrow> string \<Rightarrow> bool" where
  "whole_word w s =
     list_ex (\<lambda>i. take (length w) (drop i s) = w
                 \<and> (i = 0 \<or> \<not> is_word_char (s ! (i - 1)))
                 \<and> (length s \<le> i + length w \<or> \<not> is_word_char (s ! (i + length w))))
       [0 ..< Suc (length s)]"

definition text_matches :: "string list \<Rightarrow> string \<Rightarrow> obj \<Rightarrow> bool" where
  "text_matches names text entity =
     list_all (\<lambda>w. list_ex (\<lambda>f. case get entity f of
                                   Str s \<Rightarrow> whole_word (toLowerCase w) (toLowerCase s)
                                 | _ \<Rightarrow> False) names)
       (split CHR '' '' text)"

text \<open>
  A word that begins and ends with a letter, a digit or an underscore and in which
  no character belongs to the syntax of patterns.
\<close>

definition plain_word :: "string \<Rightarrow> bool" where
  "plain_word w =
     (w \<noteq> [] \<and> is_word_char (hd w) \<and> is_word_char (last w)
      \<and> \<not> list_ex (\<lambda>c. pattern_syntax c \<or> c = CHR ''.'') w)"

subsection \<open>Notions used in the proofs\<close>

text \<open>What may follow a value inside an object: a comma or the closing brace.\<close>

definition delimited :: "string \<Rightarrow> bool" where
  "delimited rest = (rest \<noteq> [] \<and> (hd rest = CHR '','' \<or> hd rest = CHR ''}''))"

text \<open>A member that \<^verbatim>\<open>JSON.stringify\<close> writes and \<^verbatim>\<open>JSON.parse\<close> reads back.\<close>

definition good_member :: "string \<times> jsval \<Rightarrow> bool" where
  "good_member p =
     (ascii (fst p) \<and> \<not> index_like (fst p) \<and> snd p \<noteq> Undefined \<and> in_fragment_val (snd p))"

text \<open>The properties of an object that hold a value: what its JSON text keeps.\<close>

definition defined_fields :: "obj \<Rightarrow> obj" where
  "defined_fields o' = filter (\<lambda>p. snd p \<noteq> Undefined) o'"

definition good_obj :: "obj \<Rightarrow> bool" where
  "good_obj o' = (in_fragment o' \<and> (\<forall>p \<in> set o'. snd p \<noteq> Undefined))"

text \<open>
  A record of the log is an entity together with the property \<^verbatim>\<open>exists\<close>. Its entity
  is what \<^verbatim>\<open>load\<close> keeps of it, and it is live when \<^verbatim>\<open>exists\<close> is truthy.
\<close>

definition entity_of :: "obj \<Rightarrow> obj" where
  "entity_of r = obj_del ''exists'' r"

definition live :: "obj \<Rightarrow> bool" where
  "live r = truthy (get r ''exists'')"

text \<open>The record that \<^verbatim>\<open>loadAll\<close> reads from the line \<^verbatim>\<open>toLine\<close> wrote for \<open>r\<close>.\<close>

definition norm :: "obj \<Rightarrow> obj" where
  "norm r = obj_set ''exists'' (Bool (live r)) (defined_fields (entity_of r))"

definition stored :: "obj \<Rightarrow> bool" where
  "stored r = ((\<exists>b. get r ''exists'' = Bool b) \<and> good_obj (entity_of r))"

text \<open>The callback of the \<^verbatim>\<open>map\<close> over the existing records in \<^verbatim>\<open>flush\<close>.\<close>

definition flag :: "obj list \<Rightarrow> obj \<Rightarrow> obj" where
  "flag deletes r =
     (if get r ''_id'' \<in> set (map (\<lambda>d. get d ''_id'') deletes)
      then obj_set ''exists'' (Bool False) r else r)"

subsection \<open>Examples\<close>

text \<open>
  A new \<^verbatim>\<open>Database\<close> object over an empty file, and one over an empty file that can
  be read and cannot be written.
\<close>

definition empty_log :: database where
  "empty_log =
     \<lparr>contents = Some [], writable = True, lock = None, fullTextSearchFieldNames = [''name'']\<rparr>"

definition read_only :: database where
  "read_only =
     \<lparr>contents = Some [], writable = False, lock = None, fullTextSearchFieldNames = [''name'']\<rparr>"

definition cat :: obj where
  "cat = [(''_id'', Num 1), (''name'', Str ''a cat sat'')]"

definition tagged :: obj where
  "tagged = [(''_id'', Num 1), (''exists'', Bool False)]"

section \<open>Properties\<close>

subsection \<open>The predicate matcher\<close>

lemma foldl_match_step:
  "foldl (match_step s2n entity) acc q =
     (acc \<and> (\<forall>p \<in> set (field_predicates q). holds s2n entity p))"
  by (induction q arbitrary: acc) (auto simp: match_step_def field_predicates_def holds_def)

lemma queryMatches_iff:
  "queryMatches s2n q entity = (\<forall>p \<in> set (field_predicates q). holds s2n entity p)"
  by (simp add: queryMatches_def foldl_match_step)

lemma find_Some_ex: "(\<exists>y. find P xs = Some y) = (\<exists>x \<in> set xs. P x)"
  by (induction xs) auto

text \<open>
  C6. An entity passes the \<^verbatim>\<open>$or\<close> stage exactly when some sub-query of \<^verbatim>\<open>$or\<close> has
  every one of its field predicates satisfied by the entity. For a sub-query of two
  predicates this means both: one alone does not make the branch count.
\<close>

theorem filterOr_full_match:
  assumes "subqueries ''$or'' q = Some subs"
  shows "filterOr s2n q entities =
           filter (\<lambda>entity. \<exists>sub \<in> set subs. \<forall>p \<in> set (field_predicates sub). holds s2n entity p)
             entities
         \<and> (\<not> startsWith_dollar f1 \<and> \<not> startsWith_dollar f2 \<longrightarrow>
              queryMatches s2n [(f1, Param t1), (f2, Param t2)] entity =
                (matcher s2n t1 (get entity f1) \<and> matcher s2n t2 (get entity f2)))"
  using assms
  by (simp add: filterOr_def find_Some_ex queryMatches_iff field_predicates_def holds_def)

theorem filterOr_full_match_witness:
  "subqueries ''$or'' [(''$or'', Subs [[(''a'', Param (Eq (Num 1))), (''b'', Param (Eq (Num 2)))]])]
     = Some [[(''a'', Param (Eq (Num 1))), (''b'', Param (Eq (Num 2)))]]
   \<and> filterOr (\<lambda>_. NaN) [(''$or'', Subs [[(''a'', Param (Eq (Num 1))), (''b'', Param (Eq (Num 2)))]])]
       [[(''a'', Num 1), (''b'', Num 2)], [(''a'', Num 1), (''b'', Num 3)]]
     = [[(''a'', Num 1), (''b'', Num 2)]]
   \<and> \<not> queryMatches (\<lambda>_. NaN) [(''a'', Param (Eq (Num 1))), (''b'', Param (Eq (Num 2)))]
         [(''a'', Num 1), (''b'', Num 3)]"
proof -
  have h: "subqueries ''$or'' [(''$or'', Subs [[(''a'', Param (Eq (Num 1))), (''b'', Param (Eq (Num 2)))]])]
     = Some [[(''a'', Param (Eq (Num 1))), (''b'', Param (Eq (Num 2)))]]"
    by (simp add: subqueries_def)
  show ?thesis
    using h filterOr_full_match [OF h, of "\<lambda>_. NaN"
        "[[(''a'', Num 1), (''b'', Num 2)], [(''a'', Num 1), (''b'', Num 3)]]"
        "''a''" "''b''" "Eq (Num 1)" "Eq (Num 2)" "[(''a'', Num 1), (''b'', Num 3)]"]
    by (simp add: field_predicates_def holds_def startsWith_dollar_def get_def)
qed

subsection \<open>The comparator of sort\<close>

lemma str_lt_irrefl: "\<not> str_lt s s"
  by (induction s) auto

lemma str_lt_total: "s \<noteq> t \<Longrightarrow> str_lt s t \<or> str_lt t s"
proof (induction s t rule: str_lt.induct)
  case (4 x xs y ys)
  then show ?case
    by (cases "(of_char x :: nat) < of_char y"; cases "(of_char y :: nat) < of_char x")
       (auto simp: of_char_eq_iff dest: of_char_eqI)
qed auto

lemma js_lt_irrefl: "\<not> js_lt s2n a a"
  by (cases a) (simp_all add: str_lt_irrefl)

lemma compare_step_nonzero: "acc \<noteq> 0 \<Longrightarrow> foldl (compare_step s2n a b) acc srt = acc"
  by (induction srt) (auto simp: compare_step_def)

lemma compare_step_tied: "tied s2n a b (fst p) \<Longrightarrow> compare_step s2n a b 0 p = 0"
  by (auto simp: compare_step_def tied_def Let_def)

lemma foldl_tied:
  "\<forall>p \<in> set pre. tied s2n a b (fst p) \<Longrightarrow> foldl (compare_step s2n a b) 0 pre = 0"
  by (induction pre) (auto simp: compare_step_tied)

lemma tied_equal: "get a f = get b f \<Longrightarrow> tied s2n a b f"
  by (simp add: tied_def js_gt_def js_lt_irrefl)

lemma comparator_decides:
  assumes "\<forall>p \<in> set pre. tied s2n a b (fst p)" and "\<not> tied s2n a b f"
  shows "comparator s2n (pre @ (f, d) # rest) a b =
           (if js_gt s2n (get a f) (get b f) then dir_num d else - dir_num d)"
proof -
  have ne: "get a f \<noteq> get b f" using assms(2) tied_equal by blast
  have "compare_step s2n a b 0 (f, d) =
      (if js_gt s2n (get a f) (get b f) then dir_num d else - dir_num d)"
    using assms(2) ne by (auto simp: compare_step_def tied_def Let_def)
  moreover have "\<dots> \<noteq> 0" by (cases d) auto
  ultimately show ?thesis using assms(1)
    by (simp add: comparator_def foldl_tied compare_step_nonzero)
qed

text \<open>
  C8 (as amended). The comparator goes through the fields of the sort mapping in its
  order: the first field on which one value is greater or less than the other
  decides, by its direction; a field on which the values are tied (equal, or neither
  greater than the other) defers to the next. Two numbers, or two strings, that
  differ are never tied. The entities \<^verbatim>\<open>{_id:1, a:1, b:2}\<close> and \<^verbatim>\<open>{_id:2, a:1, b:1}\<close>
  sorted by \<^verbatim>\<open>{a: 1, b: -1}\<close> come out in the order 1, 2.
\<close>

theorem sort_tie_break:
  assumes "\<forall>p \<in> set pre. tied s2n a b (fst p)" and "\<not> tied s2n a b f"
  shows "comparator s2n (pre @ (f, d) # rest) a b =
           (if js_gt s2n (get a f) (get b f) then dir_num d else - dir_num d)
         \<and> (get a g = get b g \<longrightarrow> tied s2n a b g)
         \<and> (get a g = Num m \<and> get b g = Num n \<and> m \<noteq> n \<longrightarrow> \<not> tied s2n a b g)
         \<and> (get a g = Str s \<and> get b g = Str t \<and> s \<noteq> t \<longrightarrow> \<not> tied s2n a b g)
         \<and> sort_q s2n (Some [(''a'', Asc), (''b'', Desc)]) [entity1, entity2] = Inr [entity1, entity2]
         \<and> sort_q s2n (Some [(''a'', Asc), (''b'', Desc)]) [entity2, entity1] = Inr [entity1, entity2]"
proof -
  have nums: "\<not> tied s2n a b g" if "get a g = Num m" "get b g = Num n" "m \<noteq> n"
    using that by (auto simp: tied_def js_gt_def)
  have strs: "\<not> tied s2n a b g" if "get a g = Str s" "get b g = Str t" "s \<noteq> t"
    using that str_lt_total[of s t] by (auto simp: tied_def js_gt_def)
  have ex1: "sort_q s2n (Some [(''a'', Asc), (''b'', Desc)]) [entity1, entity2] = Inr [entity1, entity2]"
    by (simp add: sort_q_def Array_sort_def consistent_comparator_def comparator_def compare_step_def
          get_def entity1_def entity2_def js_gt_def)
  have ex2: "sort_q s2n (Some [(''a'', Asc), (''b'', Desc)]) [entity2, entity1] = Inr [entity1, entity2]"
    by (simp add: sort_q_def Array_sort_def consistent_comparator_def comparator_def compare_step_def
          get_def entity1_def entity2_def js_gt_def)
  show ?thesis
    using comparator_decides[OF assms] tied_equal nums strs ex1 ex2 by blast
qed

theorem sort_tie_break_witness:
  "tied (\<lambda>_. NaN) entity1 entity2 ''a''
   \<and> \<not> tied (\<lambda>_. NaN) entity1 entity2 ''b''
   \<and> comparator (\<lambda>_. NaN) [(''a'', Asc), (''b'', Desc)] entity1 entity2 = - 1
   \<and> sort_q (\<lambda>_. NaN) (Some [(''a'', Asc), (''b'', Desc)]) [entity2, entity1] = Inr [entity1, entity2]"
proof -
  have h1: "\<forall>p \<in> set [(''a'', Asc)]. tied (\<lambda>_. NaN) entity1 entity2 (fst p)"
    by (simp add: tied_def js_gt_def get_def entity1_def entity2_def)
  have h2: "\<not> tied (\<lambda>_. NaN) entity1 entity2 ''b''"
    by (simp add: tied_def js_gt_def get_def entity1_def entity2_def)
  have gt: "js_gt (\<lambda>_. NaN) (get entity1 ''b'') (get entity2 ''b'')"
    by (simp add: js_gt_def get_def entity1_def entity2_def)
  from sort_tie_break [OF h1 h2, of Desc "[]"] gt h1 h2 show ?thesis by simp
qed

text \<open>
  C8 as stated fails where the values of a field differ without being ordered: with
  the field \<^verbatim>\<open>a\<close> absent from one entity and \<open>5\<close> in the other, the order under
  \<^verbatim>\<open>{a: 1, b: 1}\<close> follows \<^verbatim>\<open>b\<close>, not \<^verbatim>\<open>a\<close>.
\<close>

theorem sort_tie_break_counterexample:
  "get [(''_id'', Num 1), (''b'', Num 1)] ''a'' \<noteq> get [(''_id'', Num 2), (''a'', Num 5), (''b'', Num 2)] ''a''
   \<and> sort_q (\<lambda>_. NaN) (Some [(''a'', Asc), (''b'', Asc)])
        [[(''_id'', Num 1), (''b'', Num 1)], [(''_id'', Num 2), (''a'', Num 5), (''b'', Num 2)]]
       = Inr [[(''_id'', Num 1), (''b'', Num 1)], [(''_id'', Num 2), (''a'', Num 5), (''b'', Num 2)]]
   \<and> sort_q (\<lambda>_. NaN) (Some [(''a'', Asc), (''b'', Asc)])
        [[(''_id'', Num 1), (''b'', Num 2)], [(''_id'', Num 2), (''a'', Num 5), (''b'', Num 1)]]
       = Inr [[(''_id'', Num 2), (''a'', Num 5), (''b'', Num 1)], [(''_id'', Num 1), (''b'', Num 2)]]"
  by code_simp

subsection \<open>Full-text search\<close>

lemma some_e_total: "\<forall>x \<in> set xs. f x = Inr (g x) \<Longrightarrow> some_e f xs = Inr (list_ex g xs)"
  by (induction xs) auto

lemma every_e_total: "\<forall>x \<in> set xs. f x = Inr (g x) \<Longrightarrow> every_e f xs = Inr (list_all g xs)"
  by (induction xs) auto

lemma filter_e_total: "\<forall>x \<in> set xs. f x = Inr (g x) \<Longrightarrow> filter_e f xs = Inr (filter g xs)"
  by (induction xs) auto

lemma of_char_lower: "(of_char (lower_char c) :: nat) =
    (if 65 \<le> (of_char c :: nat) \<and> (of_char c :: nat) \<le> 90 then of_char c + 32 else of_char c)"
  by (simp add: lower_char_def Let_def of_char_of)

lemma lower_char_space: "(lower_char c = CHR '' '') = (c = CHR '' '')"
proof -
  have "(lower_char c = CHR '' '') = ((of_char (lower_char c) :: nat) = 32)"
    using of_char_eq_iff[of "lower_char c" "CHR '' ''", where ?'a = nat] by simp
  also have "\<dots> = ((of_char c :: nat) = 32)" by (simp add: of_char_lower)
  also have "\<dots> = (c = CHR '' '')"
    using of_char_eq_iff[of c "CHR '' ''", where ?'a = nat] by simp
  finally show ?thesis .
qed

lemma lower_word_char: "is_word_char c \<Longrightarrow> is_word_char (lower_char c)"
  by (auto simp: is_word_char_def Let_def of_char_lower)

lemma split_toLowerCase:
  "split CHR '' '' (toLowerCase s) = map toLowerCase (split CHR '' '' s)"
  by (induction s) (auto simp: toLowerCase_def lower_char_space split: list.splits)

lemma ascii_toLowerCase: "ascii s \<Longrightarrow> ascii (toLowerCase s)"
  by (auto simp: ascii_def toLowerCase_def list_all_iff of_char_lower)

lemma word_char_not_syntax: "is_word_char c \<Longrightarrow> \<not> pattern_syntax c \<and> c \<noteq> CHR ''.''"
  by (auto simp: is_word_char_def pattern_syntax_def Let_def)

lemma match_here_literal: "CHR ''.'' \<notin> set w \<Longrightarrow> match_here w t = (take (length w) t = w)"
  by (induction w t rule: match_here.induct) auto

lemma lower_char_same: "\<not> is_word_char c \<Longrightarrow> lower_char c = c"
  by (auto simp: lower_char_def is_word_char_def Let_def)

lemma lower_char_syntax:
  "(pattern_syntax (lower_char c) \<or> lower_char c = CHR ''.'') = (pattern_syntax c \<or> c = CHR ''.'')"
proof (cases "is_word_char c")
  case True
  then have "is_word_char (lower_char c)" by (rule lower_word_char)
  with True show ?thesis
    using word_char_not_syntax[of c] word_char_not_syntax[of "lower_char c"] by blast
next
  case False
  then show ?thesis by (simp add: lower_char_same)
qed

lemma plain_word_lower:
  assumes "plain_word w"
  shows "plain_word (toLowerCase w)"
proof -
  have ne: "w \<noteq> []" and first: "is_word_char (hd w)" and lst: "is_word_char (last w)"
    and lit: "\<forall>c \<in> set w. \<not> (pattern_syntax c \<or> c = CHR ''.'')"
    using assms by (auto simp: plain_word_def list_ex_iff)
  have "\<forall>c \<in> set w. \<not> (pattern_syntax (lower_char c) \<or> lower_char c = CHR ''.'')"
    using lit by (simp only: lower_char_syntax)
  then have "\<not> list_ex (\<lambda>c. pattern_syntax c \<or> c = CHR ''.'') (map lower_char w)"
    by (simp add: list_ex_iff)
  then show ?thesis
    using ne first lst by (simp add: plain_word_def toLowerCase_def hd_map last_map lower_word_char)
qed

lemma occurrence_bounds:
  assumes "take (length w) (drop i s) = w" and "plain_word w"
  shows "i + length w \<le> length s" and "is_word_char (s ! i)"
    and "is_word_char (s ! (i + length w - 1))"
proof -
  have n: "0 < length w" and first: "is_word_char (hd w)" and lst: "is_word_char (last w)"
    using assms(2) by (auto simp: plain_word_def)
  have "length (take (length w) (drop i s)) = length w" using assms(1) by simp
  then have "length w \<le> length s - i" by simp
  with n show le: "i + length w \<le> length s" by linarith
  have nth: "w ! k = s ! (i + k)" if "k < length w" for k
  proof -
    have "w ! k = take (length w) (drop i s) ! k" using assms(1) by simp
    also have "\<dots> = s ! (i + k)" using that le by simp
    finally show ?thesis .
  qed
  have "is_word_char (w ! 0)" "is_word_char (w ! (length w - 1))"
    using n first lst by (simp_all add: hd_conv_nth last_conv_nth)
  then show "is_word_char (s ! i)" "is_word_char (s ! (i + length w - 1))"
    using nth[of 0] nth[of "length w - 1"] n by simp_all
qed

lemma boundary_occurrence:
  assumes "plain_word w"
  shows "(at_boundary s i \<and> match_here w (drop i s) \<and> at_boundary s (i + length w)) =
         (take (length w) (drop i s) = w
          \<and> (i = 0 \<or> \<not> is_word_char (s ! (i - 1)))
          \<and> (length s \<le> i + length w \<or> \<not> is_word_char (s ! (i + length w))))"
proof -
  have nodot: "CHR ''.'' \<notin> set w"
    using assms by (auto simp: plain_word_def list_ex_iff)
  show ?thesis
  proof (cases "take (length w) (drop i s) = w")
    case False
    then show ?thesis by (simp add: match_here_literal[OF nodot])
  next
    case True
    have n: "0 < length w" using assms by (simp add: plain_word_def)
    note b = occurrence_bounds[OF True assms]
    have lt: "i < length s" using b(1) n by linarith
    have left: "at_boundary s i = (i = 0 \<or> \<not> is_word_char (s ! (i - 1)))"
      using b(2) lt by (auto simp: at_boundary_def)
    have pos: "0 < i + length w" using n by linarith
    have right: "at_boundary s (i + length w) =
        (length s \<le> i + length w \<or> \<not> is_word_char (s ! (i + length w)))"
      using b(1,3) pos unfolding at_boundary_def by auto
    show ?thesis using True left right by (simp add: match_here_literal[OF nodot])
  qed
qed

lemma word_match_whole_word: "plain_word w \<Longrightarrow> word_match w s = whole_word w s"
  by (simp add: word_match_def whole_word_def boundary_occurrence)

lemma RegExp_match_plain: "plain_word w \<Longrightarrow> RegExp_match w s = Inr (whole_word w s)"
proof -
  assume w: "plain_word w"
  then have "\<not> list_ex pattern_syntax w"
    by (auto simp: plain_word_def list_ex_iff)
  then show ?thesis by (simp add: RegExp_match_def word_match_whole_word[OF w])
qed

text \<open>
  The word is not escaped when the pattern is built: \<^verbatim>\<open>c.t\<close> is read as a pattern and
  matches the field \<^verbatim>\<open>a cat sat\<close>, which does not contain it.
\<close>

lemma word_read_as_pattern:
  "filterText [''name''] [(''$text'', Words ''c.t'')] [[(''name'', Str ''a cat sat'')]]
     = Inr [[(''name'', Str ''a cat sat'')]]
   \<and> \<not> text_matches [''name''] ''c.t'' [(''name'', Str ''a cat sat'')]"
  by code_simp

text \<open>
  C7 (as amended). For a query whose \<^verbatim>\<open>$text\<close> is a non-empty ASCII string of words
  with single spaces between them, each word beginning and ending with a letter, a
  digit or an underscore and free of the characters of the pattern syntax, and for
  entities whose search fields all hold ASCII strings, an entity passes the \<^verbatim>\<open>$text\<close>
  stage exactly when every word is contained as a whole word in some search field,
  letter case apart: it occurs there with no letter, digit or underscore right before
  it and none right after it. The field \<^verbatim>\<open>a cat sat\<close> matches \<^verbatim>\<open>cat\<close> and does not
  match \<^verbatim>\<open>ca\<close>.
\<close>

theorem filterText_whole_words:
  assumes "text_of q = Some text" and "text \<noteq> []" and "ascii text"
    and "\<forall>w \<in> set (split CHR '' '' text). plain_word w"
    and "\<forall>entity \<in> set entities. \<forall>f \<in> set names. \<exists>s. get entity f = Str s \<and> ascii s"
  shows "filterText names q entities = Inr (filter (text_matches names text) entities)
         \<and> filterText [''name''] [(''$text'', Words ''cat'')] [[(''name'', Str ''a cat sat'')]]
             = Inr [[(''name'', Str ''a cat sat'')]]
         \<and> filterText [''name''] [(''$text'', Words ''ca'')] [[(''name'', Str ''a cat sat'')]] = Inr []"
proof -
  have field: "field_matches (toLowerCase w) entity f =
      Inr (case get entity f of Str s \<Rightarrow> whole_word (toLowerCase w) (toLowerCase s) | _ \<Rightarrow> False)"
    if w: "w \<in> set (split CHR '' '' text)" and e: "entity \<in> set entities" and f: "f \<in> set names"
    for w entity f
  proof -
    obtain s where s: "get entity f = Str s" "ascii s" using assms(5) e f by blast
    have "plain_word (toLowerCase w)" using assms(4) w by (simp add: plain_word_lower)
    then show ?thesis by (simp add: field_matches_def s RegExp_match_plain)
  qed
  have word: "some_e (field_matches (toLowerCase w) entity) names =
      Inr (list_ex (\<lambda>f. case get entity f of
                           Str s \<Rightarrow> whole_word (toLowerCase w) (toLowerCase s) | _ \<Rightarrow> False) names)"
    if "w \<in> set (split CHR '' '' text)" "entity \<in> set entities" for w entity
    by (rule some_e_total) (simp add: field that)
  have entity: "every_e (\<lambda>expected. some_e (field_matches expected entity) names)
        (split CHR '' '' (toLowerCase text)) = Inr (text_matches names text entity)"
    if "entity \<in> set entities" for entity
  proof -
    have "every_e (\<lambda>expected. some_e (field_matches expected entity) names)
        (map toLowerCase (split CHR '' '' text)) =
      Inr (list_all (\<lambda>w'. list_ex (\<lambda>f. case get entity f of
                           Str s \<Rightarrow> whole_word w' (toLowerCase s) | _ \<Rightarrow> False) names)
        (map toLowerCase (split CHR '' '' text)))"
      by (rule every_e_total) (auto simp: word that)
    then show ?thesis by (simp add: split_toLowerCase text_matches_def list_all_iff)
  qed
  have general: "filterText names q entities = Inr (filter (text_matches names text) entities)"
    using assms(1,2,3)
    by (simp add: filterText_def Let_def) (rule filter_e_total, simp add: entity)
  have yes: "filterText [''name''] [(''$text'', Words ''cat'')] [[(''name'', Str ''a cat sat'')]]
             = Inr [[(''name'', Str ''a cat sat'')]]"
    by code_simp
  have no: "filterText [''name''] [(''$text'', Words ''ca'')] [[(''name'', Str ''a cat sat'')]] = Inr []"
    by code_simp
  show ?thesis using general yes no by simp
qed

theorem filterText_whole_words_witness:
  "text_of [(''$text'', Words ''Well-known cat'')] = Some ''Well-known cat''
   \<and> filterText [''name'', ''note''] [(''$text'', Words ''Well-known cat'')]
        [[(''name'', Str ''a WELL-KNOWN fact''), (''note'', Str ''the cat'')],
         [(''name'', Str ''a swell-known fact''), (''note'', Str ''the cat'')],
         [(''name'', Str ''a well-known fact''), (''note'', Str ''the cats'')]]
       = Inr [[(''name'', Str ''a WELL-KNOWN fact''), (''note'', Str ''the cat'')]]"
proof -
  let ?q = "[(''$text'', Words ''Well-known cat'')]"
  let ?es = "[[(''name'', Str ''a WELL-KNOWN fact''), (''note'', Str ''the cat'')],
              [(''name'', Str ''a swell-known fact''), (''note'', Str ''the cat'')],
              [(''name'', Str ''a well-known fact''), (''note'', Str ''the cats'')]]"
  have h1: "text_of ?q = Some ''Well-known cat''" by code_simp
  have h2: "''Well-known cat'' \<noteq> []" by simp
  have h3: "ascii ''Well-known cat''" by code_simp
  have "list_all plain_word (split CHR '' '' ''Well-known cat'')" by code_simp
  then have h4: "\<forall>w \<in> set (split CHR '' '' ''Well-known cat''). plain_word w"
    by (simp add: list_all_iff)
  have "list_all (\<lambda>entity. list_all (\<lambda>f. case get entity f of Str s \<Rightarrow> ascii s | _ \<Rightarrow> False)
          [''name'', ''note'']) ?es" by code_simp
  then have h5: "\<forall>entity \<in> set ?es. \<forall>f \<in> set [''name'', ''note'']. \<exists>s. get entity f = Str s \<and> ascii s"
    by (auto simp: list_all_iff split: jsval.splits)
  have ev: "filter (text_matches [''name'', ''note''] ''Well-known cat'') ?es
      = [[(''name'', Str ''a WELL-KNOWN fact''), (''note'', Str ''the cat'')]]" by code_simp
  from filterText_whole_words [OF h1 h2 h3 h4 h5] have
    "filterText [''name'', ''note''] ?q ?es
       = Inr (filter (text_matches [''name'', ''note''] ''Well-known cat'') ?es)"
    by blast
  with h1 ev show ?thesis by simp
qed

text \<open>
  C7 as stated fails for a word that begins or ends with a character other than a
  letter, a digit or an underscore. The pattern \<^verbatim>\<open>\b\<close> asks for such a character on
  exactly one side of each end: the field \<^verbatim>\<open>say !hi\<close> contains the word \<^verbatim>\<open>!hi\<close>
  between a space and the end, and does not match it.
\<close>

theorem filterText_whole_words_counterexample:
  "filterText [''name''] [(''$text'', Words ''!hi'')] [[(''name'', Str ''say !hi'')]] = Inr []
   \<and> text_matches [''name''] ''!hi'' [(''name'', Str ''say !hi'')]"
  by code_simp

subsection \<open>Reading back what was written\<close>

lemma char_eq_nat: "(c = d) = ((of_char c :: nat) = of_char d)"
  by (simp add: of_char_eq_iff)

lemma digit_char_props:
  assumes "d < 10"
  shows "is_digit (digit_char d)" and "digit_val (digit_char d) = int d"
    and "(digit_char d = CHR ''0'') = (d = 0)" and "(of_char (digit_char d) :: nat) = 48 + d"
  using assms by (auto simp: is_digit_def digit_char_def digit_val_def char_eq_nat of_char_of)

lemma digits_nonempty: "digits n \<noteq> []"
  by (induction n rule: digits.induct) (subst digits.simps, simp)

lemma digits_all: "list_all is_digit (digits n)"
proof (induction n rule: digits.induct)
  case (1 n)
  show ?case using 1 by (subst digits.simps) (simp add: digit_char_props)
qed

lemma digits_val_snoc: "digits_val (xs @ [c]) = 10 * digits_val xs + digit_val c"
  by (simp add: digits_val_def)

lemma digits_val_digits: "digits_val (digits n) = int n"
proof (induction n rule: digits.induct)
  case (1 n)
  show ?case
  proof (cases "n < 10")
    case True
    then show ?thesis by (subst digits.simps) (simp add: digits_val_def digit_char_props)
  next
    case False
    then have "digits_val (digits n) = 10 * int (n div 10) + int (n mod 10)"
      using 1 by (subst digits.simps) (simp add: digits_val_snoc digit_char_props)
    then show ?thesis by (simp add: zdiv_int zmod_int)
  qed
qed

lemma hd_digits: "(hd (digits n) = CHR ''0'') = (n = 0)"
proof (induction n rule: digits.induct)
  case (1 n)
  show ?case
  proof (cases "n < 10")
    case True
    then show ?thesis by (subst digits.simps) (simp add: digit_char_props)
  next
    case False
    then have "n div 10 \<noteq> 0" by simp
    with False 1 show ?thesis by (subst digits.simps) (simp add: digits_nonempty)
  qed
qed

lemma hd_digits_digit: "is_digit (hd (digits n))"
  using digits_all[of n] digits_nonempty[of n] by (cases "digits n") auto

lemma length_digits_zero: "hd (digits n) = CHR ''0'' \<Longrightarrow> length (digits n) = 1"
proof -
  assume "hd (digits n) = CHR ''0''"
  then have "n = 0" by (simp add: hd_digits)
  then show ?thesis by (subst digits.simps) simp
qed

lemma hex_val_hex_char: "d < 16 \<Longrightarrow> hex_val (hex_char d) = Some d"
  by (auto simp: hex_val_def hex_char_def of_char_of Let_def)

lemma hex_val_zero: "hex_val (CHR ''0'') = Some 0"
  by (simp add: hex_val_def)

lemma char_of_code: "char_of ((of_char c :: nat) div 16 * 16 + of_char c mod 16) = c"
  by (simp add: char_of_char)

lemma parse_chars_escape:
  assumes "(of_char c :: nat) < 128"
  shows "parse_chars (escape_char c @ s) = cons_char c (parse_chars s)"
proof -
  let ?n = "of_char c :: nat"
  consider (quote) "c = CHR 0x22" | (backslash) "c = CHR 0x5C"
    | (short) "?n \<in> {8, 9, 10, 12, 13}"
    | (control) "?n < 32" "?n \<notin> {8, 9, 10, 12, 13}"
    | (plain) "32 \<le> ?n" "c \<noteq> CHR 0x22" "c \<noteq> CHR 0x5C"
    by fastforce
  then show ?thesis
  proof cases
    case quote
    then show ?thesis by (simp add: escape_char_def unescape_def)
  next
    case backslash
    then show ?thesis by (simp add: escape_char_def unescape_def)
  next
    case short
    then have "c \<in> {CHR 0x08, CHR 0x09, CHR 0x0A, CHR 0x0C, CHR 0x0D}"
      by (auto simp: char_eq_nat)
    then show ?thesis by (auto simp: escape_char_def unescape_def)
  next
    case control
    then have ne: "c \<noteq> CHR 0x22" "c \<noteq> CHR 0x5C" by (auto simp: char_eq_nat)
    have lt: "?n div 16 < 16" "?n mod 16 < 16" using control by auto
    have esc: "escape_char c =
        [CHR 0x5C, CHR ''u'', CHR ''0'', CHR ''0'', hex_char (?n div 16), hex_char (?n mod 16)]"
      using control ne by (auto simp: escape_char_def Let_def)
    show ?thesis
      using assms by (simp add: esc hex_val_zero hex_val_hex_char[OF lt(1)] hex_val_hex_char[OF lt(2)] char_of_code)
  next
    case plain
    then have "escape_char c = [c]" by (auto simp: escape_char_def Let_def)
    then show ?thesis using plain assms by simp
  qed
qed

lemma parse_chars_quote:
  "ascii s \<Longrightarrow> parse_chars (concat (map escape_char s) @ CHR 0x22 # rest) = Inr (s, rest)"
  by (induction s) (simp_all add: ascii_def parse_chars_escape cons_char_def)

lemma delimited_props:
  assumes "delimited rest"
  shows "\<not> is_digit (hd rest)" and "hd rest \<notin> set [CHR ''.'', CHR ''e'', CHR ''E'']"
    and "rest \<noteq> []" and "\<not> is_ws (hd rest)"
  using assms by (auto simp: delimited_def is_digit_def is_ws_def)

lemma takeWhile_digits:
  assumes "list_all is_digit ds" and "rest = [] \<or> \<not> is_digit (hd rest)"
  shows "takeWhile is_digit (ds @ rest) = ds" and "dropWhile is_digit (ds @ rest) = rest"
proof -
  have a: "\<forall>x \<in> set ds. is_digit x" using assms(1) by (simp add: list_all_iff)
  have "takeWhile is_digit rest = []" "dropWhile is_digit rest = rest"
    using assms(2) by (cases rest; simp)+
  with a show "takeWhile is_digit (ds @ rest) = ds" "dropWhile is_digit (ds @ rest) = rest"
    by simp_all
qed

lemma not_digit_minus: "\<not> is_digit (CHR ''-'')"
  by (simp add: is_digit_def)

lemma parse_number_show_int:
  assumes "safe_int i" and "delimited rest"
  shows "parse_number (show_int i @ rest) = Inr (i, rest)"
proof -
  define n where "n = nat \<bar>i\<bar>"
  have tw: "takeWhile is_digit (digits n @ rest) = digits n"
       "dropWhile is_digit (digits n @ rest) = rest"
    using takeWhile_digits[OF digits_all, of rest n] delimited_props(1)[OF assms(2)] by simp_all
  have val: "digits_val (digits n) = \<bar>i\<bar>" by (simp add: digits_val_digits n_def)
  have small: "\<not> digits_val (digits n) > 9007199254740991"
    using assms(1) by (simp add: val safe_int_def)
  have lead: "\<not> (hd (digits n) = CHR ''0'' \<and> length (digits n) > 1)"
    using length_digits_zero[of n] by auto
  have hdne: "hd (digits n @ rest) \<noteq> CHR ''-''"
    using hd_digits_digit[of n] digits_nonempty[of n] not_digit_minus by (cases "digits n") auto
  show ?thesis
  proof (cases "i < 0")
    case True
    then have "show_int i = CHR ''-'' # digits n" by (simp add: show_int_def n_def)
    then show ?thesis
      using True tw val small lead delimited_props(2,3)[OF assms(2)] digits_nonempty[of n]
      by (simp add: parse_number_def Let_def)
  next
    case False
    then have "show_int i = digits n" by (simp add: show_int_def n_def)
    then show ?thesis
      using False tw val small lead hdne delimited_props(2,3)[OF assms(2)] digits_nonempty[of n]
      by (simp add: parse_number_def Let_def)
  qed
qed

lemma hd_show_int: "show_int i \<noteq> [] \<and> (hd (show_int i) = CHR ''-'' \<or> is_digit (hd (show_int i)))"
  using hd_digits_digit digits_nonempty by (simp add: show_int_def)

lemma is_digit_not_quote: "is_digit c \<Longrightarrow> c \<noteq> CHR 0x22"
  by (auto simp: is_digit_def)

lemma parse_value_str_value:
  assumes "v \<noteq> Undefined" and "in_fragment_val v" and "delimited rest"
  shows "parse_value (str_value v @ rest) = Inr (v, rest)"
proof (cases v)
  case Undefined
  with assms show ?thesis by simp
next
  case Null
  then show ?thesis by (simp add: parse_value_def is_digit_def)
next
  case (Bool b)
  then show ?thesis by (simp add: parse_value_def is_digit_def)
next
  case (Num i)
  obtain c cs where cs: "show_int i = c # cs" using hd_show_int[of i] by (cases "show_int i") auto
  then have c: "c = CHR ''-'' \<or> is_digit c" using hd_show_int[of i] by simp
  have "parse_number (c # cs @ rest) = Inr (i, rest)"
    using parse_number_show_int[of i rest] assms Num cs by simp
  then show ?thesis using Num cs c by (auto simp: parse_value_def dest: is_digit_not_quote)
next
  case (Str s)
  then show ?thesis using assms parse_chars_quote[of s rest] by (simp add: parse_value_def quote_def)
qed

lemma skip_ws_str_value:
  assumes "v \<noteq> Undefined"
  shows "skip_ws (str_value v @ rest) = str_value v @ rest"
proof (cases v)
  case (Num i)
  obtain c cs where cs: "show_int i = c # cs" using hd_show_int[of i] by (cases "show_int i") auto
  then have "c = CHR ''-'' \<or> is_digit c" using hd_show_int[of i] by simp
  then have "\<not> is_ws c" by (auto simp: is_ws_def is_digit_def)
  then show ?thesis using Num cs by (simp add: skip_ws_def)
qed (use assms in \<open>auto simp: skip_ws_def is_ws_def quote_def\<close>)

lemma obj_set_fresh: "k \<notin> fst ` set acc \<Longrightarrow> obj_set k v acc = acc @ [(k, v)]"
  by (induction acc) auto

lemma skip_ws_nonws: "\<not> is_ws c \<Longrightarrow> skip_ws (c # s) = c # s"
  by (simp add: skip_ws_def)

lemma parse_members_step:
  assumes "good_member (k, v)" and "delimited t"
  shows "parse_members acc (member_text (k, v) @ t) =
           (if hd t = CHR '','' then parse_members (obj_set k v acc) (tl t)
            else Inr (obj_set k v acc, tl t))"
proof -
  obtain d t' where t: "t = d # t'" "d = CHR '','' \<or> d = CHR ''}''"
    using assms(2) by (cases t) (auto simp: delimited_def)
  have k: "ascii k" "\<not> index_like k" and v: "v \<noteq> Undefined" "in_fragment_val v"
    using assms(1) by (simp_all add: good_member_def)
  have mtext: "member_text (k, v) @ t =
      CHR 0x22 # (concat (map escape_char k) @ CHR 0x22 # (CHR '':'' # str_value v @ t))"
    by (simp add: member_text_def quote_def)
  have 1: "skip_ws (member_text (k, v) @ t) =
      CHR 0x22 # (concat (map escape_char k) @ CHR 0x22 # (CHR '':'' # str_value v @ t))"
    unfolding mtext by (rule skip_ws_nonws) (simp add: is_ws_def)
  have 2: "parse_chars (concat (map escape_char k) @ CHR 0x22 # (CHR '':'' # str_value v @ t)) =
      Inr (k, CHR '':'' # str_value v @ t)"
    by (rule parse_chars_quote[OF k(1)])
  have 3: "skip_ws (CHR '':'' # str_value v @ t) = CHR '':'' # str_value v @ t"
    by (rule skip_ws_nonws) (simp add: is_ws_def)
  have 4: "parse_value (skip_ws (str_value v @ t)) = Inr (v, t)"
    by (simp add: skip_ws_str_value[OF v(1)] parse_value_str_value[OF v assms(2)])
  have 5: "skip_ws t = d # t'"
    unfolding t(1) by (rule skip_ws_nonws) (use t(2) in \<open>auto simp: is_ws_def\<close>)
  have "parse_members acc (member_text (k, v) @ t) =
          (if d = CHR '','' then parse_members (obj_set k v acc) t'
           else if d = CHR ''}'' then Inr (obj_set k v acc, t') else Inl SyntaxError)"
    by (subst parse_members.simps) (simp add: 1 2 3 4 5 k(2))
  then show ?thesis using t by auto
qed

lemma parse_members_join:
  assumes "ms \<noteq> []" and "\<forall>p \<in> set ms. good_member p" and "distinct (map fst (acc @ ms))"
  shows "parse_members acc (join_comma (map member_text ms) @ CHR ''}'' # rest) = Inr (acc @ ms, rest)"
  using assms
proof (induction ms arbitrary: acc)
  case Nil
  then show ?case by simp
next
  case (Cons p ms)
  obtain k v where p: "p = (k, v)" by (cases p)
  have fresh: "k \<notin> fst ` set acc" using Cons.prems(3) p by auto
  have good: "good_member (k, v)" using Cons.prems(2) p by simp
  show ?case
  proof (cases ms)
    case Nil
    have "parse_members acc (member_text (k, v) @ CHR ''}'' # rest) = Inr (obj_set k v acc, rest)"
      using parse_members_step[OF good, of "CHR ''}'' # rest" acc] by (simp add: delimited_def)
    then show ?thesis using Nil p fresh by (simp add: obj_set_fresh)
  next
    case (Cons q qs)
    have "parse_members acc (member_text (k, v) @ CHR '','' # join_comma (map member_text ms) @ CHR ''}'' # rest)
        = parse_members (obj_set k v acc) (join_comma (map member_text ms) @ CHR ''}'' # rest)"
      using parse_members_step[OF good, of "CHR '','' # join_comma (map member_text ms) @ CHR ''}'' # rest" acc]
      by (simp add: delimited_def)
    also have "\<dots> = Inr ((acc @ [(k, v)]) @ ms, rest)"
      unfolding obj_set_fresh[OF fresh]
      using Cons.prems Cons p by (intro Cons.IH) auto
    finally show ?thesis using Cons p by simp
  qed
qed

lemma JSON_roundtrip:
  assumes "JSON_stringify o' = Inr s"
  shows "JSON_parse s = Inr (defined_fields o')"
proof -
  have frag: "in_fragment o'" and s: "s = CHR ''{'' # join_comma (map member_text (defined_fields o')) @ [CHR ''}'']"
    using assms by (auto simp: JSON_stringify_def defined_fields_def split: if_splits)
  have good: "\<forall>p \<in> set (defined_fields o'). good_member p"
    using frag by (auto simp: in_fragment_def good_member_def defined_fields_def list_all_iff)
  have dist: "distinct (map fst (defined_fields o'))"
    using frag by (simp add: in_fragment_def defined_fields_def distinct_map_filter)
  have ws: "skip_ws s = s" unfolding s by (rule skip_ws_nonws) (simp add: is_ws_def)
  show ?thesis
  proof (cases "defined_fields o'")
    case Nil
    then show ?thesis by (simp add: JSON_parse_def ws) (simp add: s skip_ws_def is_ws_def)
  next
    case (Cons p ms)
    obtain k v where p: "p = (k, v)" by (cases p)
    have "member_text p \<noteq> []" by (simp add: member_text_def quote_def)
    then obtain c cs where m: "join_comma (map member_text (defined_fields o')) = CHR 0x22 # cs"
      using Cons by (cases ms) (auto simp: member_text_def quote_def)
    have pm: "parse_members [] (join_comma (map member_text (defined_fields o')) @ CHR ''}'' # []) =
        Inr ([] @ defined_fields o', [])"
      by (rule parse_members_join) (use Cons good dist in auto)
    have sk: "skip_ws (CHR 0x22 # cs @ [CHR ''}'']) = CHR 0x22 # cs @ [CHR ''}'']"
      by (rule skip_ws_nonws) (simp add: is_ws_def)
    show ?thesis
      using pm by (simp add: JSON_parse_def ws) (simp add: s m sk skip_ws_def is_ws_def)
  qed
qed

subsection \<open>What the parser returns is in the fragment\<close>

lemma cons_char_Inr: "cons_char c r = Inr (x, rest) \<Longrightarrow> \<exists>x'. r = Inr (x', rest) \<and> x = c # x'"
  by (auto simp: cons_char_def split: sum.splits)

lemma unescape_ascii: "unescape e = Some x \<Longrightarrow> (of_char x :: nat) < 128"
  by (auto simp: unescape_def split: if_splits)

lemma parse_chars_cases:
  assumes "parse_chars s = Inr (x, r)"
  shows "x = [] \<or> (\<exists>y x' t. x = y # x' \<and> (of_char y :: nat) < 128 \<and> parse_chars t = Inr (x', r)
                        \<and> length t < length s)"
proof (cases s)
  case Nil
  with assms show ?thesis by simp
next
  case (Cons c cs)
  consider (q) "c = CHR 0x22" | (b) "c = CHR 0x5C" | (p) "c \<noteq> CHR 0x22" "c \<noteq> CHR 0x5C"
    by blast
  then show ?thesis
  proof cases
    case q
    with assms Cons show ?thesis by simp
  next
    case p
    with assms Cons obtain x' where "parse_chars cs = Inr (x', r)" "x = c # x'" "(of_char c :: nat) < 128"
      by (auto split: if_splits dest!: cons_char_Inr)
    with Cons show ?thesis by auto
  next
    case b
    show ?thesis
    proof (cases cs)
      case Nil
      with assms Cons b show ?thesis by simp
    next
      case (Cons e r0)
      note cs = this
      show ?thesis
      proof (cases "e = CHR ''u''")
        case False
        with assms \<open>s = c # cs\<close> cs b obtain y x' where
          "unescape e = Some y" "parse_chars r0 = Inr (x', r)" "x = y # x'"
          by (auto split: option.splits dest!: cons_char_Inr)
        with \<open>s = c # cs\<close> cs show ?thesis by (auto dest: unescape_ascii)
      next
        case True
        from assms \<open>s = c # cs\<close> cs b True obtain h1 h2 h3 h4 r' where r0: "r0 = h1 # h2 # h3 # h4 # r'"
          by (auto split: list.splits)
        from assms \<open>s = c # cs\<close> cs b True r0 obtain code x' where
          "code < (128::nat)" "parse_chars r' = Inr (x', r)" "x = char_of code # x'"
          by (auto simp: Let_def split: option.splits if_splits dest!: cons_char_Inr)
        with \<open>s = c # cs\<close> cs r0 show ?thesis by (auto simp: of_char_of)
      qed
    qed
  qed
qed

lemma parse_chars_ascii: "parse_chars s = Inr (x, r) \<Longrightarrow> ascii x"
proof (induction "length s" arbitrary: s x r rule: less_induct)
  case less
  from parse_chars_cases[OF less.prems] show ?case
  proof
    assume "x = []"
    then show ?thesis by (simp add: ascii_def)
  next
    assume "\<exists>y x' t. x = y # x' \<and> (of_char y :: nat) < 128 \<and> parse_chars t = Inr (x', r) \<and> length t < length s"
    then obtain y x' t where *: "x = y # x'" "(of_char y :: nat) < 128" "parse_chars t = Inr (x', r)"
      "length t < length s" by blast
    from less.hyps[OF *(4) *(3)] * show ?thesis by (simp add: ascii_def)
  qed
qed

lemma digits_val_nonneg: "list_all is_digit ds \<Longrightarrow> 0 \<le> a \<Longrightarrow> 0 \<le> foldl (\<lambda>a c. 10 * a + digit_val c) a ds"
  by (induction ds arbitrary: a) (auto simp: is_digit_def digit_val_def Let_def)

lemma parse_number_safe: "parse_number s = Inr (n, r) \<Longrightarrow> safe_int n"
proof -
  assume a: "parse_number s = Inr (n, r)"
  define s1 where "s1 = (if s \<noteq> [] \<and> hd s = CHR ''-'' then tl s else s)"
  have "list_all is_digit (takeWhile is_digit s1)"
    by (simp add: list_all_iff) (meson set_takeWhileD)
  then have "0 \<le> digits_val (takeWhile is_digit s1)"
    unfolding digits_val_def by (rule digits_val_nonneg) simp
  with a show ?thesis
    by (auto simp: parse_number_def Let_def safe_int_def s1_def split: if_splits)
qed

lemma parse_value_good: "parse_value s = Inr (v, r) \<Longrightarrow> v \<noteq> Undefined \<and> in_fragment_val v"
  by (auto simp: parse_value_def split: list.splits if_splits sum.splits
        dest: parse_chars_ascii parse_number_safe)

lemma keys_obj_set: "fst ` set (obj_set k v o') = insert k (fst ` set o')"
  by (induction k v o' rule: obj_set.induct) auto

lemma distinct_obj_set: "distinct (map fst o') \<Longrightarrow> distinct (map fst (obj_set k v o'))"
  by (induction k v o' rule: obj_set.induct) (auto simp: keys_obj_set)

lemma set_obj_set: "set (obj_set k v o') \<subseteq> insert (k, v) (set o')"
  by (induction k v o' rule: obj_set.induct) auto

lemma good_obj_set:
  assumes "good_obj o'" and "ascii k" and "\<not> index_like k" and "v \<noteq> Undefined" and "in_fragment_val v"
  shows "good_obj (obj_set k v o')"
  using assms set_obj_set[of k v o']
  by (auto simp: good_obj_def in_fragment_def list_all_iff distinct_obj_set)

lemma parse_members_good: "parse_members acc s = Inr (o', r) \<Longrightarrow> good_obj acc \<Longrightarrow> good_obj o'"
proof (induction acc s arbitrary: o' r rule: parse_members.induct)
  case (1 acc s)
  from "1.prems"(1) show ?case
    apply (subst (asm) parse_members.simps)
    apply (auto split: list.splits if_splits sum.splits prod.splits)
    subgoal for x k r1 r2 v r3 r4
      using "1.IH"[of "CHR 0x22" x _ k r1 "CHR '':''" r2 _ v r3 "CHR '',''" r4 o' r] "1.prems"(2)
      by (simp add: good_obj_set parse_chars_ascii parse_value_good)
    subgoal for x k r1 r2 v r3
      using "1.prems"(2)
      by (simp add: good_obj_set parse_chars_ascii parse_value_good)
    done
qed

lemma JSON_parse_good: "JSON_parse s = Inr o' \<Longrightarrow> good_obj o'"
proof -
  have nil: "good_obj []" by (simp add: good_obj_def in_fragment_def)
  show "JSON_parse s = Inr o' \<Longrightarrow> good_obj o'"
    by (auto simp: JSON_parse_def nil split: list.splits if_splits sum.splits prod.splits
          dest: parse_members_good[OF _ nil])
qed

subsection \<open>The text of an object has no line break\<close>

lemma hex_char_no_nl: "d < 16 \<Longrightarrow> hex_char d \<noteq> CHR 0x0A"
proof
  assume d: "d < 16" and "hex_char d = CHR 0x0A"
  then have "(of_char (hex_char d) :: nat) = 10" by simp
  with d show False
    by (simp add: hex_char_def of_char_of split: if_splits)
qed

lemma escape_char_no_nl: "CHR 0x0A \<notin> set (escape_char c)"
proof -
  let ?n = "of_char c :: nat"
  have "?n < 256" by (rule nat_of_char_less_256)
  then have "?n div 16 < 16" "?n mod 16 < 16" by (simp_all add: less_mult_imp_div_less)
  then have "hex_char (?n div 16) \<noteq> CHR 0x0A" "hex_char (?n mod 16) \<noteq> CHR 0x0A"
    by (simp_all add: hex_char_no_nl)
  then show ?thesis by (auto simp: escape_char_def Let_def)
qed

lemma quote_no_nl: "CHR 0x0A \<notin> set (quote s)"
  using escape_char_no_nl by (auto simp: quote_def)

lemma digits_no_nl: "CHR 0x0A \<notin> set (digits n)"
  using digits_all[of n] by (auto simp: list_all_iff is_digit_def)

lemma str_value_no_nl: "CHR 0x0A \<notin> set (str_value v)"
  using quote_no_nl digits_no_nl by (cases v) (auto simp: show_int_def)

lemma join_comma_no_nl: "\<forall>x \<in> set xs. CHR 0x0A \<notin> set x \<Longrightarrow> CHR 0x0A \<notin> set (join_comma xs)"
  by (induction xs rule: join_comma.induct) auto

lemma JSON_stringify_no_nl: "JSON_stringify o' = Inr s \<Longrightarrow> CHR 0x0A \<notin> set s"
proof -
  have "CHR 0x0A \<notin> set (member_text p)" for p
    using quote_no_nl str_value_no_nl by (simp add: member_text_def)
  then have "CHR 0x0A \<notin> set (join_comma (map member_text xs))" for xs
    by (intro join_comma_no_nl) auto
  then show "JSON_stringify o' = Inr s \<Longrightarrow> CHR 0x0A \<notin> set s"
    by (auto simp: JSON_stringify_def split: if_splits)
qed

subsection \<open>Objects\<close>

lemma get_obj_set: "get (obj_set k v o') k' = (if k' = k then v else get o' k')"
  by (induction k v o' rule: obj_set.induct) (auto simp: get_def)

lemma get_obj_del: "get (obj_del k o') k' = (if k' = k then Undefined else get o' k')"
  by (induction o') (auto simp: get_def obj_del_def)

lemma obj_del_obj_set: "obj_del k (obj_set k v o') = obj_del k o'"
  by (induction k v o' rule: obj_set.induct) (auto simp: obj_del_def)

lemma obj_del_absent: "k \<notin> fst ` set o' \<Longrightarrow> obj_del k o' = o'"
  by (induction o') (auto simp: obj_del_def)

lemma keys_obj_del: "fst ` set (obj_del k o') = fst ` set o' - {k}"
  by (auto simp: obj_del_def)

lemma get_defined_fields: "distinct (map fst o') \<Longrightarrow> get (defined_fields o') k = get o' k"
proof (induction o')
  case Nil
  then show ?case by (simp add: defined_fields_def)
next
  case (Cons p ps)
  obtain a b where p: "p = (a, b)" by (cases p)
  have "a \<notin> fst ` set (defined_fields ps)" using Cons.prems p by (auto simp: defined_fields_def)
  then have "map_of (defined_fields ps) a = None" by (simp add: map_of_eq_None_iff)
  with Cons p show ?case by (auto simp: defined_fields_def get_def)
qed

lemma defined_fields_id: "\<forall>p \<in> set o'. snd p \<noteq> Undefined \<Longrightarrow> defined_fields o' = o'"
  by (simp add: defined_fields_def)

lemma good_obj_defined: "good_obj o' \<Longrightarrow> defined_fields o' = o'"
  by (simp add: good_obj_def defined_fields_id)

lemma in_fragment_obj_del: "in_fragment o' \<Longrightarrow> in_fragment (obj_del k o')"
  by (auto simp: in_fragment_def obj_del_def list_all_iff distinct_map_filter)

lemma good_obj_del: "good_obj o' \<Longrightarrow> good_obj (obj_del k o')"
  using in_fragment_obj_del by (auto simp: good_obj_def) (auto simp: obj_del_def)

subsection \<open>Callbacks that may throw\<close>

lemma map_e_total: "\<forall>x \<in> set xs. f x = Inr (g x) \<Longrightarrow> map_e f xs = Inr (map g xs)"
  by (induction xs) auto

lemma map_e_Cons_Inr:
  "(map_e f (x # xs) = Inr zs) = (\<exists>y ys. f x = Inr y \<and> map_e f xs = Inr ys \<and> zs = y # ys)"
  by (auto split: sum.splits)

lemma map_e_elems: "map_e f xs = Inr ys \<Longrightarrow> y \<in> set ys \<Longrightarrow> \<exists>x \<in> set xs. f x = Inr y"
  by (induction xs arbitrary: ys) (auto simp: map_e_Cons_Inr simp del: map_e.simps(2))

lemma map_e_defined: "map_e f xs = Inr ys \<Longrightarrow> x \<in> set xs \<Longrightarrow> \<exists>y. f x = Inr y"
  by (induction xs arbitrary: ys) (auto simp: map_e_Cons_Inr simp del: map_e.simps(2))

lemma map_e_compose:
  assumes "map_e f xs = Inr ys" and "\<And>x y. x \<in> set xs \<Longrightarrow> f x = Inr y \<Longrightarrow> g y = Inr (h x)"
  shows "map_e g ys = Inr (map h xs)"
  using assms
  by (induction xs arbitrary: ys) (auto simp: map_e_Cons_Inr simp del: map_e.simps(2))

subsection \<open>Lines\<close>

lemma split_no_sep: "c \<notin> set l \<Longrightarrow> split c l = [l]"
  by (induction l) auto

lemma split_append: "c \<notin> set l \<Longrightarrow> split c (l @ c # rest) = l # split c rest"
  by (induction l) auto

lemma split_lines:
  "\<forall>l \<in> set ls. c \<notin> set l \<Longrightarrow> split c (concat (map ((#) c) ls)) = [] # ls"
proof (induction ls)
  case Nil
  then show ?case by simp
next
  case (Cons l ls)
  then have IH: "split c (concat (map ((#) c) ls)) = [] # ls" and l: "c \<notin> set l" by simp_all
  show ?case
  proof (cases ls)
    case Nil
    with l show ?thesis by (simp add: split_no_sep)
  next
    case (Cons m ms)
    then obtain rest where rest: "concat (map ((#) c) ls) = c # rest" by simp
    with IH have "split c rest = ls" by simp
    then show ?thesis using l rest by (simp add: split_append)
  qed
qed

lemma foldl_lines:
  "foldl (\<lambda>acc l. acc @ c # l) a ls = a @ concat (map ((#) c) ls)"
  by (induction ls arbitrary: a) auto

subsection \<open>Records\<close>

lemma decode_toLine:
  assumes "toLine r = Inr line"
  shows "decode line = Inr (norm r)" and "line \<noteq> []" and "CHR 0x0A \<notin> set line"
proof -
  obtain s where s: "JSON_stringify (obj_del ''exists'' r) = Inr s"
    and line: "line = (if truthy (get r ''exists'') then CHR ''E'' else CHR ''D'') # s"
    using assms by (auto simp: toLine_def split: sum.splits)
  show "decode line = Inr (norm r)"
    using JSON_roundtrip[OF s] by (simp add: decode_def line norm_def live_def entity_of_def)
  show "line \<noteq> []" by (simp add: line)
  show "CHR 0x0A \<notin> set line" using JSON_stringify_no_nl[OF s] by (simp add: line)
qed

lemma loadAll_written:
  assumes "map_e toLine records = Inr lines"
  shows "loadAll (db\<lparr>contents := Some (foldl (\<lambda>acc l. acc @ CHR 0x0A # l) [] lines)\<rparr>)
           = Inr (map norm records)"
proof -
  have each: "\<forall>l \<in> set lines. l \<noteq> [] \<and> CHR 0x0A \<notin> set l"
    using map_e_elems[OF assms] decode_toLine(2,3) by blast
  then have "split (CHR 0x0A) (concat (map ((#) (CHR 0x0A)) lines)) = [] # lines"
    by (intro split_lines) auto
  moreover have "filter (\<lambda>l. l \<noteq> []) lines = lines" using each by (simp add: filter_id_conv)
  moreover have "map_e decode lines = Inr (map norm records)"
    using assms by (rule map_e_compose) (rule decode_toLine(1))
  ultimately show ?thesis by (simp add: loadAll_def readFile_def foldl_lines)
qed

lemma decode_stored: "decode raw = Inr r \<Longrightarrow> stored r"
  by (auto simp: decode_def stored_def entity_of_def get_obj_set obj_del_obj_set
        split: sum.splits dest!: JSON_parse_good intro: good_obj_del)

lemma loadAll_stored: "loadAll db = Inr all \<Longrightarrow> r \<in> set all \<Longrightarrow> stored r"
  by (auto simp: loadAll_def split: sum.splits dest: map_e_elems decode_stored)

lemma toLine_stored: "stored r \<Longrightarrow> \<exists>line. toLine r = Inr line"
  by (auto simp: stored_def toLine_def entity_of_def JSON_stringify_def good_obj_def)

lemma stored_flag: "stored r \<Longrightarrow> stored (obj_set ''exists'' (Bool b) r)"
  by (auto simp: stored_def entity_of_def get_obj_set obj_del_obj_set)

lemma entity_of_norm: "stored r \<Longrightarrow> entity_of (norm r) = entity_of r"
  by (simp add: norm_def stored_def entity_of_def obj_del_obj_set good_obj_defined
        obj_del_absent keys_obj_del)

lemma live_norm: "live (norm r) = live r"
  by (simp add: norm_def live_def get_obj_set)

subsection \<open>The effect of a mutation\<close>

lemma loadAll_contents: "contents db' = contents db \<Longrightarrow> loadAll db' = loadAll db"
  by (simp add: loadAll_def readFile_def)

lemma load_eq: "load db = (case loadAll db of Inl e \<Rightarrow> Inl e
    | Inr all \<Rightarrow> Inr (map entity_of (filter live all)))"
  by (cases "loadAll db") (simp_all add: load_def entity_of_def[abs_def] live_def[abs_def])

lemma toLine_error: "toLine r = Inl e \<Longrightarrow> e = Unmodelled"
  by (auto simp: toLine_def JSON_stringify_def split: sum.splits if_splits)

lemma map_e_error: "map_e f xs = Inl e \<Longrightarrow> \<exists>x \<in> set xs. f x = Inl e"
  by (induction xs) (auto split: sum.splits)

lemma flag_fun:
  "(\<lambda>e. if get e ''_id'' \<in> set (map (\<lambda>d. get d ''_id'') dels)
        then obj_set ''exists'' (Bool False) e else e) = flag dels"
  by (simp add: flag_def fun_eq_iff)

lemma flush_alt:
  "flush ins dels db =
     (case lock db of
        Some e \<Rightarrow> (Inl e, db)
      | None \<Rightarrow>
          (case loadAll db of
             Inl e \<Rightarrow> (Inl e, db\<lparr>lock := Some e\<rparr>)
           | Inr all \<Rightarrow>
               (case map_e toLine (map (flag dels) all @ map (obj_set ''exists'' (Bool True)) ins) of
                  Inl e \<Rightarrow> (Inl e, db\<lparr>lock := Some e\<rparr>)
                | Inr lines \<Rightarrow>
                    (if writable db
                     then (Inr (), db\<lparr>contents := Some (foldl (\<lambda>acc l. acc @ CHR 0x0A # l) [] lines)\<rparr>)
                     else (Inl IOError, db\<lparr>lock := Some IOError\<rparr>)))))"
  unfolding flush_def Let_def flag_fun writeFile_def
  by (simp split: option.split sum.split)

lemma flush_cases:
  assumes "flush ins dels db = (res, db')"
  shows "(\<exists>e. lock db = Some e \<and> res = Inl e \<and> db' = db)
   \<or> (\<exists>e. lock db = None \<and> loadAll db = Inl e \<and> res = Inl e \<and> db' = db\<lparr>lock := Some e\<rparr>)
   \<or> (lock db = None \<and> res = Inl Unmodelled)
   \<or> (lock db = None \<and> \<not> writable db \<and> res = Inl IOError \<and> db' = db\<lparr>lock := Some IOError\<rparr>)
   \<or> (\<exists>all lines. lock db = None \<and> writable db \<and> loadAll db = Inr all \<and> res = Inr ()
        \<and> map_e toLine (map (flag dels) all @ map (obj_set ''exists'' (Bool True)) ins) = Inr lines
        \<and> db' = db\<lparr>contents := Some (foldl (\<lambda>acc l. acc @ CHR 0x0A # l) [] lines)\<rparr>)"
proof (cases "lock db")
  case (Some e)
  with assms show ?thesis by (simp add: flush_alt)
next
  case None
  note lock = this
  show ?thesis
  proof (cases "loadAll db")
    case (Inl e)
    with assms lock show ?thesis by (simp add: flush_alt)
  next
    case (Inr all)
    note all = this
    show ?thesis
    proof (cases "map_e toLine (map (flag dels) all @ map (obj_set ''exists'' (Bool True)) ins)")
      case (Inl e)
      then have "e = Unmodelled" using map_e_error toLine_error by blast
      with assms lock all Inl show ?thesis by (simp add: flush_alt)
    next
      case (Inr lines)
      with assms lock all show ?thesis by (cases "writable db") (simp_all add: flush_alt)
    qed
  qed
qed

lemma flush_Inr:
  assumes "flush ins dels db = (Inr (), db')"
  shows "\<exists>all. lock db = None \<and> loadAll db = Inr all
           \<and> loadAll db' = Inr (map norm (map (flag dels) all @ map (obj_set ''exists'' (Bool True)) ins))
           \<and> lock db' = None \<and> fullTextSearchFieldNames db' = fullTextSearchFieldNames db"
proof -
  from flush_cases[OF assms] obtain all lines where *: "lock db = None" "loadAll db = Inr all"
    "map_e toLine (map (flag dels) all @ map (obj_set ''exists'' (Bool True)) ins) = Inr lines"
    "db' = db\<lparr>contents := Some (foldl (\<lambda>acc l. acc @ CHR 0x0A # l) [] lines)\<rparr>"
    by auto
  have "loadAll db' = Inr (map norm (map (flag dels) all @ map (obj_set ''exists'' (Bool True)) ins))"
    unfolding *(4) by (rule loadAll_written[OF *(3)])
  with * show ?thesis by simp
qed

lemma stored_flag': "stored r \<Longrightarrow> stored (flag dels r)"
  by (simp add: flag_def stored_flag)

text \<open>
  A mutation completes when the lock is not rejected, the file can be read and
  written, and the entities to insert are in the fragment.
\<close>

lemma flush_succeeds:
  assumes "lock db = None" and "writable db" and "loadAll db = Inr all"
    and "\<forall>e \<in> set ins. in_fragment (obj_del ''exists'' e)"
  shows "\<exists>db'. flush ins dels db = (Inr (), db')"
proof -
  let ?records = "map (flag dels) all @ map (obj_set ''exists'' (Bool True)) ins"
  have old: "\<exists>line. toLine r = Inr line" if "r \<in> set (map (flag dels) all)" for r
    using that loadAll_stored[OF assms(3)] by (auto intro: toLine_stored stored_flag')
  have new: "\<exists>line. toLine r = Inr line" if "r \<in> set (map (obj_set ''exists'' (Bool True)) ins)" for r
    using that assms(4) by (auto simp: toLine_def obj_del_obj_set JSON_stringify_def)
  have "\<forall>r \<in> set ?records. toLine r = Inr (projr (toLine r))"
    using old new by fastforce
  then have "map_e toLine ?records = Inr (map (\<lambda>r. projr (toLine r)) ?records)"
    by (rule map_e_total)
  then show ?thesis using assms(1,2,3) by (simp add: flush_alt)
qed

text \<open>Once the lock is rejected, every mutation is rejected with the same error.\<close>

lemma rejected_lock_stays: "lock db = Some e \<Longrightarrow> flush ins dels db = (Inl e, db)"
  by (simp add: flush_alt)

lemma delete_Inr:
  assumes "delete_db s2n q db = (Inr (), db')"
  shows "\<exists>all ds. loadAll db = Inr all
           \<and> filter_q s2n (fullTextSearchFieldNames db) q (map entity_of (filter live all)) = Inr ds
           \<and> loadAll db' = Inr (map (\<lambda>r. norm (flag ds r)) all)
           \<and> lock db = None \<and> lock db' = None
           \<and> fullTextSearchFieldNames db' = fullTextSearchFieldNames db"
proof -
  from assms obtain es ds where es: "load db = Inr es"
    and ds: "filter_q s2n (fullTextSearchFieldNames db) q es = Inr ds"
    and fl: "flush [] ds db = (Inr (), db')"
    by (auto simp: delete_db_def split: sum.splits)
  from flush_Inr[OF fl] obtain all where all: "loadAll db = Inr all"
    "loadAll db' = Inr (map norm (map (flag ds) all))" "lock db = None" "lock db' = None"
    "fullTextSearchFieldNames db' = fullTextSearchFieldNames db" by auto
  from es all(1) have "es = map entity_of (filter live all)" by (simp add: load_eq)
  with ds all show ?thesis by (simp add: comp_def)
qed

lemma entity_of_flag: "entity_of (flag ds r) = entity_of r"
  by (simp add: flag_def entity_of_def obj_del_obj_set)

lemma live_flag: "live (flag ds r) = (live r \<and> get r ''_id'' \<notin> (\<lambda>d. get d ''_id'') ` set ds)"
  by (simp add: flag_def live_def get_obj_set)

lemma id_entity_of: "get (entity_of r) ''_id'' = get r ''_id''"
  by (simp add: entity_of_def get_obj_del)

lemma filter_q_id_query:
  "filter_q s2n fts [(''_id'', Param (Eq v))] es = Inr (filter (\<lambda>e. get e ''_id'' = v) es)"
  by (simp add: filter_q_def filterAnd_def filterOr_def filterText_def subqueries_def text_of_def
        filterParams_def queryMatches_def match_step_def startsWith_dollar_def)

lemma filter_q_empty: "filter_q s2n fts [] es = Inr es"
  by (simp add: filter_q_def filterAnd_def filterOr_def filterText_def subqueries_def text_of_def
        filterParams_def queryMatches_def)

lemma find_db_no_options:
  "find_db s2n q no_options db =
     (case load db of Inl e \<Rightarrow> Inl e
      | Inr es \<Rightarrow> filter_q s2n (fullTextSearchFieldNames db) q es)"
  by (auto simp: find_db_def no_options_def project_def sort_q_def split: sum.splits)

lemma find_db_cong:
  "load db' = load db \<Longrightarrow> fullTextSearchFieldNames db' = fullTextSearchFieldNames db
     \<Longrightarrow> find_db s2n q opts db' = find_db s2n q opts db"
  by (cases "load db") (simp_all add: find_db_def)

lemma flag_Nil: "flag [] r = r"
  by (simp add: flag_def)

lemma flush_Inr_lines:
  assumes "flush ins dels db = (Inr (), db')"
  shows "\<forall>e \<in> set ins. \<exists>line. toLine (obj_set ''exists'' (Bool True) e) = Inr line"
proof -
  from flush_cases[OF assms] obtain all lines where
    "map_e toLine (map (flag dels) all @ map (obj_set ''exists'' (Bool True)) ins) = Inr lines"
    by auto
  then show ?thesis using map_e_defined[of toLine _ lines] by auto
qed

lemma toLine_distinct: "toLine r = Inr line \<Longrightarrow> distinct (map fst (entity_of r))"
  by (auto simp: toLine_def JSON_stringify_def in_fragment_def entity_of_def
        split: sum.splits if_splits)

lemma entity_of_norm_new:
  "entity_of (norm (obj_set ''exists'' v e)) = defined_fields (obj_del ''exists'' e)"
proof -
  have "''exists'' \<notin> fst ` set (defined_fields (obj_del ''exists'' e))"
    by (auto simp: defined_fields_def obj_del_def)
  then show ?thesis
    by (simp add: norm_def entity_of_def obj_del_obj_set obj_del_absent)
qed

lemma load_after_insert:
  assumes "insert_db e db = (Inr (), db')"
  shows "\<exists>all. loadAll db = Inr all
           \<and> load db' = Inr (map entity_of (filter live all) @ [defined_fields (obj_del ''exists'' e)])"
proof -
  from flush_Inr[OF assms[unfolded insert_db_def]] obtain all where
    all: "loadAll db = Inr all"
    and all': "loadAll db' = Inr (map norm (map (flag []) all @ [obj_set ''exists'' (Bool True) e]))"
    by auto
  have st: "\<forall>r \<in> set all. stored r" using loadAll_stored[OF all] by blast
  have 1: "map entity_of (filter live (map norm all)) = map entity_of (filter live all)"
    using st by (induction all) (auto simp: live_norm entity_of_norm)
  have 2: "live (norm (obj_set ''exists'' (Bool True) e))"
    by (simp add: live_norm) (simp add: live_def get_obj_set)
  show ?thesis
    using all all' 1 2 by (simp add: load_eq flag_Nil[abs_def] entity_of_norm_new)
qed

lemma delete_effect:
  assumes "delete_db s2n q db = (Inr (), db')"
  shows "\<exists>all ds all'. loadAll db = Inr all
           \<and> filter_q s2n (fullTextSearchFieldNames db) q (map entity_of (filter live all)) = Inr ds
           \<and> loadAll db' = Inr all'
           \<and> length all' = length all
           \<and> map entity_of all' = map entity_of all
           \<and> map live all' = map (\<lambda>r. live r \<and> get r ''_id'' \<notin> (\<lambda>d. get d ''_id'') ` set ds) all
           \<and> fullTextSearchFieldNames db' = fullTextSearchFieldNames db"
proof -
  from delete_Inr[OF assms] obtain all ds where all: "loadAll db = Inr all"
    and ds: "filter_q s2n (fullTextSearchFieldNames db) q (map entity_of (filter live all)) = Inr ds"
    and all': "loadAll db' = Inr (map (\<lambda>r. norm (flag ds r)) all)"
    and fts: "fullTextSearchFieldNames db' = fullTextSearchFieldNames db"
    by blast
  have st: "\<forall>r \<in> set all. stored (flag ds r)"
    using loadAll_stored[OF all] by (auto intro: stored_flag')
  have 1: "map entity_of (map (\<lambda>r. norm (flag ds r)) all) = map entity_of all"
    using st by (simp add: entity_of_norm entity_of_flag)
  have 2: "map live (map (\<lambda>r. norm (flag ds r)) all) =
        map (\<lambda>r. live r \<and> get r ''_id'' \<notin> (\<lambda>d. get d ''_id'') ` set ds) all"
    by (simp add: live_norm live_flag)
  show ?thesis using all ds all' fts 1 2 by simp
qed

section \<open>The claims about the store\<close>

text \<open>
  In the examples the conversion of strings to numbers is \<open>\<lambda>_. NaN\<close>; no example
  compares a string with a number.
\<close>

lemma find_after_insert:
  assumes "insert_db e db = (Inr (), db')" and "loadAll db = Inr all"
    and "\<forall>r \<in> set all. get r ''_id'' \<noteq> get e ''_id''"
  shows "find_db s2n [(''_id'', Param (Eq (get e ''_id'')))] no_options db'
           = Inr [defined_fields (obj_del ''exists'' e)]"
proof -
  from load_after_insert[OF assms(1)] assms(2)
  have load: "load db' = Inr (map entity_of (filter live all) @ [defined_fields (obj_del ''exists'' e)])"
    by auto
  have old: "filter (\<lambda>x. get x ''_id'' = get e ''_id'') (map entity_of (filter live all)) = []"
    using assms(3) by (auto simp: filter_empty_conv id_entity_of)
  obtain line where "toLine (obj_set ''exists'' (Bool True) e) = Inr line"
    using flush_Inr_lines[OF assms(1)[unfolded insert_db_def]] by auto
  then have "distinct (map fst (obj_del ''exists'' e))"
    using toLine_distinct by (fastforce simp: entity_of_def obj_del_obj_set)
  then have new: "get (defined_fields (obj_del ''exists'' e)) ''_id'' = get e ''_id''"
    by (simp add: get_defined_fields get_obj_del)
  show ?thesis
    by (simp add: find_db_no_options load filter_q_id_query old new)
qed

text \<open>
  C1 (as amended). Let \<open>e\<close> be an entity of the fragment: a flat object with distinct
  ASCII keys, none an array index, whose values are \<open>null\<close>, booleans, safe integers,
  ASCII strings or \<open>undefined\<close>. On a store whose lock is not rejected, whose file can
  be written and whose log can be read, holds records of the fragment and has none
  with the identifier of \<open>e\<close>, \<^verbatim>\<open>insert(e)\<close> completes, and
  \<^verbatim>\<open>find({_id: {$eq: e._id}})\<close> then returns one entity: \<open>e\<close> without its property
  \<^verbatim>\<open>exists\<close> and without the properties that hold \<open>undefined\<close>. It is \<open>[e]\<close> when \<open>e\<close>
  has neither.
\<close>

theorem insert_then_find:
  assumes "in_fragment e" and "lock db = None" and "writable db" and "loadAll db = Inr all"
    and "\<forall>r \<in> set all. get r ''_id'' \<noteq> get e ''_id''"
  shows "\<exists>db'. insert_db e db = (Inr (), db')
           \<and> find_db s2n [(''_id'', Param (Eq (get e ''_id'')))] no_options db'
               = Inr [defined_fields (obj_del ''exists'' e)]
           \<and> (''exists'' \<notin> fst ` set e \<and> (\<forall>p \<in> set e. snd p \<noteq> Undefined) \<longrightarrow>
                find_db s2n [(''_id'', Param (Eq (get e ''_id'')))] no_options db' = Inr [e])"
proof -
  have "\<forall>x \<in> set [e]. in_fragment (obj_del ''exists'' x)"
    using assms(1) by (simp add: in_fragment_obj_del)
  from flush_succeeds[OF assms(2,3,4) this] obtain db' where
    ins: "insert_db e db = (Inr (), db')"
    unfolding insert_db_def by blast
  have main: "find_db s2n [(''_id'', Param (Eq (get e ''_id'')))] no_options db'
      = Inr [defined_fields (obj_del ''exists'' e)]"
    by (rule find_after_insert[OF ins assms(4,5)])
  moreover have "defined_fields (obj_del ''exists'' e) = e"
    if "''exists'' \<notin> fst ` set e" "\<forall>p \<in> set e. snd p \<noteq> Undefined"
    using that by (simp add: obj_del_absent defined_fields_id)
  ultimately show ?thesis using ins by auto
qed

theorem insert_then_find_witness:
  "in_fragment cat
   \<and> loadAll empty_log = Inr []
   \<and> fst (insert_db cat empty_log) = Inr ()
   \<and> find_db (\<lambda>_. NaN) [(''_id'', Param (Eq (Num 1)))] no_options (snd (insert_db cat empty_log))
       = Inr [cat]"
proof -
  have h1: "in_fragment cat" by code_simp
  have h2: "lock empty_log = None" by (simp add: empty_log_def)
  have h3: "writable empty_log" by (simp add: empty_log_def)
  have h4: "loadAll empty_log = Inr []" by code_simp
  have h5: "\<forall>r \<in> set []. get r ''_id'' \<noteq> get cat ''_id''" by simp
  have id: "get cat ''_id'' = Num 1" by code_simp
  have plain: "''exists'' \<notin> fst ` set cat \<and> (\<forall>p \<in> set cat. snd p \<noteq> Undefined)"
    by (simp add: cat_def)
  from insert_then_find [OF h1 h2 h3 h4 h5, of "\<lambda>_. NaN"] plain obtain db' where
    "insert_db cat empty_log = (Inr (), db')"
    "find_db (\<lambda>_. NaN) [(''_id'', Param (Eq (get cat ''_id'')))] no_options db' = Inr [cat]"
    by blast
  with h1 h4 id show ?thesis by simp
qed

text \<open>
  C1 as stated fails for an entity that has a property \<^verbatim>\<open>exists\<close> of its own:
  \<^verbatim>\<open>flush\<close> overwrites it with the liveness tag and \<^verbatim>\<open>toLine\<close> drops it, so the
  entity that comes back is not the one that was inserted.
\<close>

theorem insert_then_find_counterexample:
  "fst (insert_db tagged empty_log) = Inr ()
   \<and> loadAll empty_log = Inr []
   \<and> find_db (\<lambda>_. NaN) [(''_id'', Param (Eq (Num 1)))] no_options (snd (insert_db tagged empty_log))
       = Inr [[(''_id'', Num 1)]]
   \<and> find_db (\<lambda>_. NaN) [(''_id'', Param (Eq (Num 1)))] no_options (snd (insert_db tagged empty_log))
       \<noteq> Inr [tagged]"
  by code_simp

text \<open>
  C2. After \<^verbatim>\<open>insert(e)\<close> and then \<^verbatim>\<open>delete({_id: {$eq: e._id}})\<close> have completed,
  \<^verbatim>\<open>find({_id: {$eq: e._id}})\<close> returns the empty list.
\<close>

theorem insert_delete_find:
  assumes "insert_db e db = (Inr (), db1)"
    and "delete_db s2n [(''_id'', Param (Eq (get e ''_id'')))] db1 = (Inr (), db2)"
  shows "find_db s2n [(''_id'', Param (Eq (get e ''_id'')))] no_options db2 = Inr []"
proof -
  let ?v = "get e ''_id''"
  from delete_Inr[OF assms(2)] obtain all ds where all: "loadAll db1 = Inr all"
    and ds: "filter_q s2n (fullTextSearchFieldNames db1) [(''_id'', Param (Eq ?v))]
               (map entity_of (filter live all)) = Inr ds"
    and all2: "loadAll db2 = Inr (map (\<lambda>r. norm (flag ds r)) all)"
    by blast
  have ds_eq: "ds = filter (\<lambda>x. get x ''_id'' = ?v) (map entity_of (filter live all))"
    using ds by (simp add: filter_q_id_query)
  have st: "\<forall>r \<in> set all. stored (flag ds r)"
    using loadAll_stored[OF all] by (auto intro: stored_flag')
  have "get (entity_of (norm (flag ds r))) ''_id'' \<noteq> ?v"
    if r: "r \<in> set all" and l: "live (norm (flag ds r))" for r
  proof
    assume eq: "get (entity_of (norm (flag ds r))) ''_id'' = ?v"
    have "entity_of (norm (flag ds r)) = entity_of r"
      using st r by (simp add: entity_of_norm entity_of_flag)
    with eq have id: "get (entity_of r) ''_id'' = ?v" by simp
    from l have lr: "live r" and out: "get r ''_id'' \<notin> (\<lambda>d. get d ''_id'') ` set ds"
      by (simp_all add: live_norm live_flag)
    from r lr id have "entity_of r \<in> set ds" by (simp add: ds_eq)
    then have "get (entity_of r) ''_id'' \<in> (\<lambda>d. get d ''_id'') ` set ds" by blast
    with out show False by (simp add: id_entity_of)
  qed
  then have "filter (\<lambda>x. get x ''_id'' = ?v)
      (map entity_of (filter live (map (\<lambda>r. norm (flag ds r)) all))) = []"
    by (auto simp: filter_empty_conv)
  then show ?thesis
    by (simp add: find_db_no_options load_eq all2 filter_q_id_query)
qed

theorem insert_delete_find_witness:
  "fst (insert_db cat empty_log) = Inr ()
   \<and> fst (delete_db (\<lambda>_. NaN) [(''_id'', Param (Eq (Num 1)))] (snd (insert_db cat empty_log))) = Inr ()
   \<and> find_db (\<lambda>_. NaN) [(''_id'', Param (Eq (Num 1)))] no_options
        (snd (delete_db (\<lambda>_. NaN) [(''_id'', Param (Eq (Num 1)))] (snd (insert_db cat empty_log))))
       = Inr []"
proof -
  let ?db1 = "snd (insert_db cat empty_log)"
  let ?q = "[(''_id'', Param (Eq (get cat ''_id'')))]"
  have id: "get cat ''_id'' = Num 1" by code_simp
  have f1: "fst (insert_db cat empty_log) = Inr ()" by code_simp
  then have h1: "insert_db cat empty_log = (Inr (), ?db1)" by (simp add: prod_eq_iff)
  have f2: "fst (delete_db (\<lambda>_. NaN) [(''_id'', Param (Eq (Num 1)))] ?db1) = Inr ()" by code_simp
  then have h2: "delete_db (\<lambda>_. NaN) ?q ?db1 = (Inr (), snd (delete_db (\<lambda>_. NaN) ?q ?db1))"
    by (simp add: prod_eq_iff id)
  from insert_delete_find [OF h1 h2] f1 f2 show ?thesis by (simp add: id)
qed

text \<open>
  C4 (as amended). \<^verbatim>\<open>delete(query)\<close> writes the whole file again and appends nothing:
  the log keeps its records, in their order and with their fields, and a record is
  live afterwards exactly when it was live and its identifier is not the identifier
  of an entity that matched the query.
\<close>

theorem delete_rewrites_in_place:
  assumes "delete_db s2n q db = (Inr (), db')"
  shows "\<exists>all ds all'. loadAll db = Inr all
           \<and> filter_q s2n (fullTextSearchFieldNames db) q (map entity_of (filter live all)) = Inr ds
           \<and> loadAll db' = Inr all'
           \<and> length all' = length all
           \<and> map entity_of all' = map entity_of all
           \<and> map live all' = map (\<lambda>r. live r \<and> get r ''_id'' \<notin> (\<lambda>d. get d ''_id'') ` set ds) all"
  using delete_effect[OF assms] by blast

theorem delete_rewrites_in_place_witness:
  "fst (delete_db (\<lambda>_. NaN) [(''_id'', Param (Eq (Num 1)))] (snd (insert_db cat empty_log))) = Inr ()
   \<and> (\<exists>all ds all'.
         loadAll (snd (insert_db cat empty_log)) = Inr all
       \<and> filter_q (\<lambda>_. NaN) (fullTextSearchFieldNames (snd (insert_db cat empty_log)))
            [(''_id'', Param (Eq (Num 1)))] (map entity_of (filter live all)) = Inr ds
       \<and> loadAll (snd (delete_db (\<lambda>_. NaN) [(''_id'', Param (Eq (Num 1)))] (snd (insert_db cat empty_log))))
            = Inr all'
       \<and> length all' = length all
       \<and> map entity_of all' = map entity_of all
       \<and> map live all' = map (\<lambda>r. live r \<and> get r ''_id'' \<notin> (\<lambda>d. get d ''_id'') ` set ds) all)"
proof -
  let ?db1 = "snd (insert_db cat empty_log)"
  let ?q = "[(''_id'', Param (Eq (Num 1)))]"
  have f: "fst (delete_db (\<lambda>_. NaN) ?q ?db1) = Inr ()" by code_simp
  then have h: "delete_db (\<lambda>_. NaN) ?q ?db1 = (Inr (), snd (delete_db (\<lambda>_. NaN) ?q ?db1))"
    by (simp add: prod_eq_iff)
  from delete_rewrites_in_place [OF h] f show ?thesis by simp
qed

text \<open>
  C4 as stated fails: the line of a matching record is written again with the tag
  \<^verbatim>\<open>D\<close> in the place of \<^verbatim>\<open>E\<close>, and the file has as many lines as before.
\<close>

theorem delete_rewrites_in_place_counterexample:
  "contents (snd (insert_db [(''_id'', Num 1)] empty_log)) = Some (CHR 0x0A # ''E{\"_id\":1}'')
   \<and> fst (delete_db (\<lambda>_. NaN) [(''_id'', Param (Eq (Num 1)))] (snd (insert_db [(''_id'', Num 1)] empty_log)))
       = Inr ()
   \<and> contents (snd (delete_db (\<lambda>_. NaN) [(''_id'', Param (Eq (Num 1)))]
                      (snd (insert_db [(''_id'', Num 1)] empty_log))))
       = Some (CHR 0x0A # ''D{\"_id\":1}'')"
  by code_simp

lemma set_obj_del_tag:
  assumes "distinct (map fst o')" and "map_of o' k = Some v"
  shows "set (obj_del k o' @ [(k, v)]) = set o'"
proof (rule set_eqI)
  fix p :: "string \<times> jsval"
  obtain a c where p: "p = (a, c)" by (cases p)
  have tag: "(k, v) \<in> set o'" using assms(2) by (rule map_of_SomeD)
  show "p \<in> set (obj_del k o' @ [(k, v)]) \<longleftrightarrow> p \<in> set o'"
  proof (cases "a = k")
    case True
    have "c = v" if "(k, c) \<in> set o'"
      using map_of_is_SomeI[OF assms(1) that] assms(2) by simp
    with True tag show ?thesis by (auto simp: p obj_del_def)
  next
    case False
    then show ?thesis by (simp add: p obj_del_def)
  qed
qed

lemma norm_stored:
  assumes "in_fragment r" and "get r ''exists'' = Bool b" and "\<forall>p \<in> set r. snd p \<noteq> Undefined"
  shows "norm r = entity_of r @ [(''exists'', Bool b)]" and "set (norm r) = set r"
    and "distinct (map fst (norm r))"
proof -
  have dist: "distinct (map fst r)" using assms(1) by (simp add: in_fragment_def)
  have "defined_fields (entity_of r) = entity_of r"
    using assms(3) by (intro defined_fields_id) (auto simp: entity_of_def obj_del_def)
  moreover have "live r = b" using assms(2) by (simp add: live_def)
  moreover have fresh: "''exists'' \<notin> fst ` set (entity_of r)"
    by (simp add: entity_of_def keys_obj_del)
  ultimately show n: "norm r = entity_of r @ [(''exists'', Bool b)]"
    by (simp add: norm_def obj_set_fresh)
  have "map_of r ''exists'' = Some (Bool b)"
    using assms(2) by (auto simp: get_def split: option.splits)
  then show "set (norm r) = set r"
    unfolding n entity_of_def by (rule set_obj_del_tag[OF dist])
  have "distinct (map fst (entity_of r))"
    using dist by (simp add: entity_of_def obj_del_def distinct_map_filter)
  with fresh show "distinct (map fst (norm r))" unfolding n by simp
qed

text \<open>
  C5 (as amended). Let \<open>r\<close> be a stored record of the fragment: a flat object with
  distinct ASCII keys, none an array index, that holds a boolean under \<^verbatim>\<open>exists\<close> and
  \<open>null\<close>, booleans, safe integers or ASCII strings under its other keys, and
  \<open>undefined\<close> under none. \<^verbatim>\<open>toLine\<close> encodes \<open>r\<close> to the tag (\<open>E\<close> for a live record,
  \<open>D\<close> for a deleted one) followed by the JSON text of its entity, and the line is
  decoded to a record with the same fields and the same values, the liveness tag
  included. A record as \<^verbatim>\<open>flush\<close> builds it, with the tag last, is decoded to itself.
\<close>

theorem encode_decode_roundtrip:
  assumes "in_fragment r" and "get r ''exists'' = Bool b" and "\<forall>p \<in> set r. snd p \<noteq> Undefined"
  shows "\<exists>s r'. JSON_stringify (entity_of r) = Inr s
           \<and> toLine r = Inr ((if b then CHR ''E'' else CHR ''D'') # s)
           \<and> decode ((if b then CHR ''E'' else CHR ''D'') # s) = Inr r'
           \<and> set r' = set r \<and> distinct (map fst r')
           \<and> (\<forall>k. get r' k = get r k)
           \<and> (r = o' @ [(''exists'', Bool b)] \<longrightarrow> r' = r)"
proof -
  have "in_fragment (entity_of r)"
    using assms(1) by (simp add: entity_of_def in_fragment_obj_del)
  then obtain s where s: "JSON_stringify (entity_of r) = Inr s"
    by (simp add: JSON_stringify_def)
  have line: "toLine r = Inr ((if b then CHR ''E'' else CHR ''D'') # s)"
    using s assms(2) by (simp add: toLine_def entity_of_def)
  have dec: "decode ((if b then CHR ''E'' else CHR ''D'') # s) = Inr (norm r)"
    by (rule decode_toLine(1)[OF line])
  note n = norm_stored[OF assms]
  have dist: "distinct (map fst (entity_of r))" by (rule toLine_distinct[OF line])
  have gets: "get (norm r) k = get r k" for k
    using assms(2) dist
    by (simp add: norm_def get_obj_set live_def get_defined_fields) (simp add: entity_of_def get_obj_del)
  have same: "norm r = r" if r: "r = o' @ [(''exists'', Bool b)]"
  proof -
    have "distinct (map fst r)" using assms(1) by (simp add: in_fragment_def)
    then have "''exists'' \<notin> fst ` set o'" unfolding r by auto
    then have "entity_of r = o'"
      unfolding r by (simp add: entity_of_def obj_del_def filter_id_conv) force
    with n(1) r show ?thesis by simp
  qed
  show ?thesis using s line dec n(2,3) gets same by blast
qed

theorem encode_decode_roundtrip_witness:
  "in_fragment (cat @ [(''exists'', Bool True)])
   \<and> get (cat @ [(''exists'', Bool True)]) ''exists'' = Bool True
   \<and> toLine (cat @ [(''exists'', Bool True)]) = Inr ''E{\"_id\":1,\"name\":\"a cat sat\"}''
   \<and> decode ''E{\"_id\":1,\"name\":\"a cat sat\"}'' = Inr (cat @ [(''exists'', Bool True)])"
proof -
  let ?r = "cat @ [(''exists'', Bool True)]"
  have h1: "in_fragment ?r" by code_simp
  have h2: "get ?r ''exists'' = Bool True" by code_simp
  have "list_all (\<lambda>p. snd p \<noteq> Undefined) ?r" by code_simp
  then have h3: "\<forall>p \<in> set ?r. snd p \<noteq> Undefined" by (simp add: list_all_iff)
  have l: "toLine ?r = Inr ''E{\"_id\":1,\"name\":\"a cat sat\"}''" by code_simp
  from encode_decode_roundtrip [OF h1 h2 h3, of cat] obtain s r' where
    "toLine ?r = Inr ((if True then CHR ''E'' else CHR ''D'') # s)"
    "decode ((if True then CHR ''E'' else CHR ''D'') # s) = Inr r'" "r' = ?r"
    by blast
  with l have "decode ''E{\"_id\":1,\"name\":\"a cat sat\"}'' = Inr ?r" by simp
  with h1 h2 l show ?thesis by simp
qed

text \<open>
  C5 as stated fails for a record with a field that holds \<open>undefined\<close>:
  \<^verbatim>\<open>JSON.stringify\<close> leaves the field out, and the record that is decoded does not
  have it.
\<close>

theorem encode_decode_roundtrip_counterexample:
  "get [(''_id'', Num 1), (''x'', Undefined), (''exists'', Bool True)] ''exists'' = Bool True
   \<and> toLine [(''_id'', Num 1), (''x'', Undefined), (''exists'', Bool True)] = Inr ''E{\"_id\":1}''
   \<and> decode ''E{\"_id\":1}'' = Inr [(''_id'', Num 1), (''exists'', Bool True)]
   \<and> [(''_id'', Num 1), (''exists'', Bool True)]
       \<noteq> [(''_id'', Num 1), (''x'', Undefined), (''exists'', Bool True)]"
  by code_simp

text \<open>
  A mutation that fails leaves the lock rejected: after an \<^verbatim>\<open>insert\<close> that could not
  write, \<^verbatim>\<open>delete\<close> is rejected even when the file can be written again.
\<close>

lemma rejected_lock_example:
  "fst (insert_db cat read_only) = Inl IOError
   \<and> lock (snd (insert_db cat read_only)) = Some IOError
   \<and> find_db (\<lambda>_. NaN) [] no_options ((snd (insert_db cat read_only))\<lparr>writable := True\<rparr>) = Inr []
   \<and> fst (delete_db (\<lambda>_. NaN) [] ((snd (insert_db cat read_only))\<lparr>writable := True\<rparr>)) = Inl IOError"
  by code_simp

text \<open>
  C9 (as amended). On a store whose lock is not rejected, whose file can be written
  and whose log holds records of the fragment, for a query that matches no live
  entity (\<^verbatim>\<open>find(query)\<close> returns the empty list), \<^verbatim>\<open>delete(query)\<close> completes without
  an error, and every \<^verbatim>\<open>find\<close> returns afterwards what it returned before.
\<close>

theorem delete_nothing_is_noop:
  assumes "lock db = None" and "writable db" and "find_db s2n q no_options db = Inr []"
  shows "\<exists>db'. delete_db s2n q db = (Inr (), db') \<and> load db' = load db
           \<and> (\<forall>q' opts. find_db s2n q' opts db' = find_db s2n q' opts db)"
proof -
  from assms(3) obtain es where es: "load db = Inr es"
    and none: "filter_q s2n (fullTextSearchFieldNames db) q es = Inr []"
    by (auto simp: find_db_no_options split: sum.splits)
  from es obtain all where all: "loadAll db = Inr all"
    by (auto simp: load_eq split: sum.splits)
  have "\<forall>e \<in> set []. in_fragment (obj_del ''exists'' e)" by simp
  from flush_succeeds[OF assms(1,2) all this] obtain db' where fl: "flush [] [] db = (Inr (), db')"
    by blast
  then have del: "delete_db s2n q db = (Inr (), db')" by (simp add: delete_db_def es none)
  from flush_Inr[OF fl] all have all': "loadAll db' = Inr (map norm all)"
    and fts: "fullTextSearchFieldNames db' = fullTextSearchFieldNames db"
    by (simp_all add: flag_Nil[abs_def])
  have st: "\<forall>r \<in> set all. stored r" using loadAll_stored[OF all] by blast
  have "map entity_of (filter live (map norm all)) = map entity_of (filter live all)"
    using st by (induction all) (auto simp: live_norm entity_of_norm)
  then have same: "load db' = load db" by (simp add: load_eq all all')
  show ?thesis using del same find_db_cong[OF same fts] by blast
qed

theorem delete_nothing_is_noop_witness:
  "lock (snd (insert_db cat empty_log)) = None
   \<and> writable (snd (insert_db cat empty_log))
   \<and> find_db (\<lambda>_. NaN) [(''_id'', Param (Eq (Num 2)))] no_options (snd (insert_db cat empty_log)) = Inr []
   \<and> fst (delete_db (\<lambda>_. NaN) [(''_id'', Param (Eq (Num 2)))] (snd (insert_db cat empty_log))) = Inr ()
   \<and> load (snd (delete_db (\<lambda>_. NaN) [(''_id'', Param (Eq (Num 2)))] (snd (insert_db cat empty_log))))
       = Inr [cat]"
proof -
  let ?db1 = "snd (insert_db cat empty_log)"
  let ?q = "[(''_id'', Param (Eq (Num 2)))]"
  have h1: "lock ?db1 = None" by code_simp
  have h2: "writable ?db1" by code_simp
  have h3: "find_db (\<lambda>_. NaN) ?q no_options ?db1 = Inr []" by code_simp
  have l: "load ?db1 = Inr [cat]" by code_simp
  from delete_nothing_is_noop [OF h1 h2 h3] obtain db' where
    "delete_db (\<lambda>_. NaN) ?q ?db1 = (Inr (), db')" "load db' = load ?db1"
    by blast
  with h1 h2 h3 l show ?thesis by simp
qed

text \<open>
  C9 as stated fails on a file that can be read and cannot be written: \<^verbatim>\<open>delete\<close>
  writes the whole file again even when nothing matches the query, and the write is
  rejected.
\<close>

theorem delete_nothing_is_noop_counterexample:
  "find_db (\<lambda>_. NaN) [(''_id'', Param (Eq (Num 2)))] no_options read_only = Inr []
   \<and> fst (delete_db (\<lambda>_. NaN) [(''_id'', Param (Eq (Num 2)))] read_only) = Inl IOError"
  by code_simp

text \<open>
  C10. The matcher of plain predicates accepts every entity for a query whose keys
  all start with \<^verbatim>\<open>$\<close>, the empty query among them. So \<^verbatim>\<open>find({})\<close> returns every
  live entity, and after \<^verbatim>\<open>delete({})\<close> has completed the log holds the same
  entities and none of its records is live.
\<close>

theorem dollar_keys_match_everything:
  assumes "\<forall>k \<in> fst ` set q. startsWith_dollar k"
  shows "queryMatches s2n q entity
         \<and> find_db s2n [] no_options db = load db
         \<and> (delete_db s2n [] db = (Inr (), db') \<longrightarrow>
              (\<exists>all all'. loadAll db = Inr all \<and> loadAll db' = Inr all'
                 \<and> map entity_of all' = map entity_of all
                 \<and> (\<forall>r \<in> set all'. \<not> live r) \<and> load db' = Inr []))"
proof -
  have a: "queryMatches s2n q entity"
    using assms by (auto simp: queryMatches_iff field_predicates_def)
  have b: "find_db s2n [] no_options db = load db"
    by (cases "load db") (simp_all add: find_db_no_options filter_q_empty)
  have c: "\<exists>all all'. loadAll db = Inr all \<and> loadAll db' = Inr all'
             \<and> map entity_of all' = map entity_of all
             \<and> (\<forall>r \<in> set all'. \<not> live r) \<and> load db' = Inr []"
    if del: "delete_db s2n [] db = (Inr (), db')"
  proof -
    from delete_effect[OF del] obtain all ds all' where all: "loadAll db = Inr all"
      and ds: "filter_q s2n (fullTextSearchFieldNames db) [] (map entity_of (filter live all)) = Inr ds"
      and all': "loadAll db' = Inr all'" and ents: "map entity_of all' = map entity_of all"
      and lives: "map live all' = map (\<lambda>r. live r \<and> get r ''_id'' \<notin> (\<lambda>d. get d ''_id'') ` set ds) all"
      by blast
    have ds_eq: "ds = map entity_of (filter live all)" using ds by (simp add: filter_q_empty)
    have "\<not> (live r \<and> get r ''_id'' \<notin> (\<lambda>d. get d ''_id'') ` set ds)" if "r \<in> set all" for r
    proof
      assume h: "live r \<and> get r ''_id'' \<notin> (\<lambda>d. get d ''_id'') ` set ds"
      with that have "entity_of r \<in> set ds" by (simp add: ds_eq)
      then have "get (entity_of r) ''_id'' \<in> (\<lambda>d. get d ''_id'') ` set ds" by blast
      with h show False by (simp add: id_entity_of)
    qed
    then have "map live all' = map (\<lambda>r. False) all" using lives by simp
    then have "set (map live all') = set (map (\<lambda>r. False) all)" by simp
    then have "live ` set all' \<subseteq> {False}" by auto
    then have dead: "\<forall>r \<in> set all'. \<not> live r" by blast
    then have "filter live all' = []" by (simp add: filter_empty_conv)
    then have "load db' = Inr []" by (simp add: load_eq all')
    with all all' ents dead show ?thesis by simp
  qed
  show ?thesis using a b c by simp
qed

theorem dollar_keys_match_everything_witness:
  "queryMatches (\<lambda>_. NaN) [(''$or'', Subs []), (''$text'', Words ''dog'')] cat
   \<and> find_db (\<lambda>_. NaN) [] no_options (snd (insert_db cat empty_log)) = Inr [cat]
   \<and> fst (delete_db (\<lambda>_. NaN) [] (snd (insert_db cat empty_log))) = Inr ()
   \<and> load (snd (delete_db (\<lambda>_. NaN) [] (snd (insert_db cat empty_log)))) = Inr []"
proof -
  let ?db1 = "snd (insert_db cat empty_log)"
  let ?q = "[(''$or'', Subs []), (''$text'', Words ''dog'')]"
  have h: "\<forall>k \<in> fst ` set ?q. startsWith_dollar k" by (simp add: startsWith_dollar_def)
  have f: "fst (delete_db (\<lambda>_. NaN) [] ?db1) = Inr ()" by code_simp
  then have d: "delete_db (\<lambda>_. NaN) [] ?db1 = (Inr (), snd (delete_db (\<lambda>_. NaN) [] ?db1))"
    by (simp add: prod_eq_iff)
  have l: "load ?db1 = Inr [cat]" by code_simp
  from dollar_keys_match_everything [OF h, of "\<lambda>_. NaN" cat ?db1 "snd (delete_db (\<lambda>_. NaN) [] ?db1)"] d
  have "queryMatches (\<lambda>_. NaN) ?q cat" and "find_db (\<lambda>_. NaN) [] no_options ?db1 = load ?db1"
    and "load (snd (delete_db (\<lambda>_. NaN) [] ?db1)) = Inr []"
    by blast+
  with f l show ?thesis by simp
qed

end
